theory Spec2Isabelle
  imports Main
begin

section \<open>Values, exceptions and the world of \<^verbatim>\<open>sync_garmin_data.py\<close>\<close>

text \<open>
  The script talks to three things outside itself: the remote API client, the local file
  tree under \<^verbatim>\<open>BASE_DIR\<close> and the terminal. They are modelled by an explicit
  \<open>world\<close> that every function takes and returns. Python values that travel through
  the script (API results, file contents) are JSON values; Python's \<^verbatim>\<open>None\<close> is
  \<open>JNull\<close>. JSON floats are opaque payload in the script and are left out.
\<close>

datatype json =
    JNull
  | JBool bool
  | JInt int
  | JStr string
  | JList "json list"
  | JObj "(string \<times> json) list"

text \<open>Python truthiness (\<^verbatim>\<open>if x:\<close>, \<^verbatim>\<open>not x\<close>).\<close>

fun truthy :: "json \<Rightarrow> bool" where
  "truthy JNull = False"
| "truthy (JBool b) = b"
| "truthy (JInt i) = (i \<noteq> 0)"
| "truthy (JStr s) = (s \<noteq> [])"
| "truthy (JList xs) = (xs \<noteq> [])"
| "truthy (JObj kvs) = (kvs \<noteq> [])"

subsection \<open>Strings\<close>

fun starts_with :: "string \<Rightarrow> string \<Rightarrow> bool" where
  "starts_with s [] = True"
| "starts_with [] (p # ps) = False"
| "starts_with (c # s) (p # ps) = (c = p \<and> starts_with s ps)"

text \<open>\<^verbatim>\<open>needle in s\<close> for strings.\<close>

fun contains :: "string \<Rightarrow> string \<Rightarrow> bool" where
  "contains [] needle = (needle = [])"
| "contains (c # s) needle = (starts_with (c # s) needle \<or> contains s needle)"

definition digit_char :: "nat \<Rightarrow> char" where
  "digit_char d = ''0123456789'' ! d"

function show_nat :: "nat \<Rightarrow> string" where
  "show_nat n = (if n < 10 then [digit_char n] else show_nat (n div 10) @ [digit_char (n mod 10)])"
  by pat_completeness auto
termination
  by (relation "measure id") auto

declare show_nat.simps [simp del]

definition show_int :: "int \<Rightarrow> string" where
  "show_int i = (if i < 0 then CHR ''-'' # show_nat (nat (- i)) else show_nat (nat i))"

fun intercalate :: "string \<Rightarrow> string list \<Rightarrow> string" where
  "intercalate sep [] = []"
| "intercalate sep [x] = x"
| "intercalate sep (x # y # ys) = x @ sep @ intercalate sep (y # ys)"

text \<open>
  \<^verbatim>\<open>repr\<close> of a string: single quotes unless the string has a single quote and no
  double quote; backslash, the quote in use, newline, carriage return and tab are escaped.
\<close>

definition repr_str :: "string \<Rightarrow> string" where
  "repr_str s =
     (let q = (if CHR 0x27 \<in> set s \<and> CHR 0x22 \<notin> set s then CHR 0x22 else CHR 0x27);
          esc = (\<lambda>c. if c = CHR 0x5C then [CHR 0x5C, CHR 0x5C]
                      else if c = q then [CHR 0x5C, q]
                      else if c = CHR 0x0A then [CHR 0x5C, CHR ''n'']
                      else if c = CHR 0x0D then [CHR 0x5C, CHR ''r'']
                      else if c = CHR 0x09 then [CHR 0x5C, CHR ''t'']
                      else [c])
      in q # concat (map esc s) @ [q])"

text \<open>\<^verbatim>\<open>repr(x)\<close> and \<^verbatim>\<open>str(x)\<close> (the latter is what an f-string inserts).\<close>

fun py_repr :: "json \<Rightarrow> string" where
  "py_repr JNull = ''None''"
| "py_repr (JBool b) = (if b then ''True'' else ''False'')"
| "py_repr (JInt i) = show_int i"
| "py_repr (JStr s) = repr_str s"
| "py_repr (JList xs) = ''['' @ intercalate '', '' (map py_repr xs) @ '']''"
| "py_repr (JObj kvs) =
     ''{'' @ intercalate '', '' (map (\<lambda>(k, v). repr_str k @ '': '' @ py_repr v) kvs) @ ''}''"

fun py_str :: "json \<Rightarrow> string" where
  "py_str (JStr s) = s"
| "py_str v = py_repr v"

text \<open>\<^verbatim>\<open>d.get(key)\<close> on a JSON object (a Python dict).\<close>

definition dict_get :: "(string \<times> json) list \<Rightarrow> string \<Rightarrow> json" where
  "dict_get kvs key = (case map_of kvs key of None \<Rightarrow> JNull | Some v \<Rightarrow> v)"

subsection \<open>Exceptions\<close>

text \<open>
  The exception classes the script names, each with its message \<^verbatim>\<open>str(e)\<close>.
  \<open>GarthHTTPError\<close> is a subclass of \<open>GarthException\<close>; the constructor
  \<open>GarthException\<close> stands for its instances that are not HTTP errors. \<open>OtherError\<close> is
  any other subclass of \<^verbatim>\<open>Exception\<close>. \<open>KeyboardInterrupt\<close> and \<open>SystemExit\<close>
  derive from \<^verbatim>\<open>BaseException\<close> only.
\<close>

datatype exn =
    GarminConnectTooManyRequestsError string
  | GarthHTTPError string
  | GarthException string
  | GarminConnectAuthenticationError string
  | GarminConnectConnectionError string
  | FileNotFoundError string
  | HTTPError string
  | OtherError string
  | KeyboardInterrupt
  | SystemExit nat

fun exn_str :: "exn \<Rightarrow> string" where
  "exn_str (GarminConnectTooManyRequestsError m) = m"
| "exn_str (GarthHTTPError m) = m"
| "exn_str (GarthException m) = m"
| "exn_str (GarminConnectAuthenticationError m) = m"
| "exn_str (GarminConnectConnectionError m) = m"
| "exn_str (FileNotFoundError m) = m"
| "exn_str (HTTPError m) = m"
| "exn_str (OtherError m) = m"
| "exn_str KeyboardInterrupt = []"
| "exn_str (SystemExit n) = show_nat n"

text \<open>\<^verbatim>\<open>isinstance(e, Exception)\<close>.\<close>

fun is_Exception :: "exn \<Rightarrow> bool" where
  "is_Exception KeyboardInterrupt = False"
| "is_Exception (SystemExit n) = False"
| "is_Exception e = True"

datatype 'a result = Returned 'a | Raised exn

subsection \<open>The world\<close>

text \<open>
  A remote invocation is a method name of the API client with its arguments. A path is
  the string below \<^verbatim>\<open>BASE_DIR\<close>; distinct strings are distinct files. The world
  holds the file tree and four logs, oldest entry first: the files written by
  \<^verbatim>\<open>save_json\<close>, the remote invocations, the sleeps (seconds) and the printed
  lines.
\<close>

datatype request = Request string "json list"

record world =
  files :: "string \<rightharpoonup> json"
  writes :: "(string \<times> json) list"
  calls :: "request list"
  sleeps :: "nat list"
  out :: "string list"

text \<open>
  The remote API client: what the invoked method does (returns a value or raises) may
  depend on everything that happened before.
\<close>

type_synonym remote = "world \<Rightarrow> request \<Rightarrow> json result"

definition print :: "string \<Rightarrow> world \<Rightarrow> world" where
  "print s w = w\<lparr>out := out w @ [s]\<rparr>"

definition sleep :: "nat \<Rightarrow> world \<Rightarrow> world" where
  "sleep n w = w\<lparr>sleeps := sleeps w @ [n]\<rparr>"

definition invoke :: "request \<Rightarrow> world \<Rightarrow> world" where
  "invoke q w = w\<lparr>calls := calls w @ [q]\<rparr>"

definition API_DELAY :: nat where "API_DELAY = 1"
definition MAX_RETRIES :: nat where "MAX_RETRIES = 3"
definition RETRY_BACKOFF :: nat where "RETRY_BACKOFF = 5"
definition HISTORY_DAYS :: int where "HISTORY_DAYS = 365"

section \<open>The retrying caller\<close>

text \<open>
  \<^verbatim>\<open>api_call\<close>: the \<^verbatim>\<open>for attempt in range(MAX_RETRIES)\<close> loop, from a given
  attempt on. The first \<^verbatim>\<open>except\<close> clause takes the two rate-limit classes, the
  second every other \<^verbatim>\<open>Exception\<close>; anything else leaves the function.
\<close>

fun is_rate_limit_class :: "exn \<Rightarrow> bool" where
  "is_rate_limit_class (GarminConnectTooManyRequestsError m) = True"
| "is_rate_limit_class (GarthHTTPError m) = True"
| "is_rate_limit_class e = False"

fun is_TooManyRequests :: "exn \<Rightarrow> bool" where
  "is_TooManyRequests (GarminConnectTooManyRequestsError m) = True"
| "is_TooManyRequests e = False"

function api_call_from :: "remote \<Rightarrow> request \<Rightarrow> nat \<Rightarrow> world \<Rightarrow> json result \<times> world" where
  "api_call_from api q attempt w =
     (if MAX_RETRIES \<le> attempt
      then (Returned JNull, print ''  Giving up after max retries.'' w)
      else
        (case api w q of
           Returned v \<Rightarrow> (Returned v, invoke q w)
         | Raised e \<Rightarrow>
             if is_rate_limit_class e then
               if contains (exn_str e) ''429'' \<or> is_TooManyRequests e then
                 let wait = RETRY_BACKOFF * (attempt + 1) in
                 api_call_from api q (attempt + 1)
                   (sleep wait
                     (print (''  Rate limited, waiting '' @ show_nat wait @ ''s...'')
                       (invoke q w)))
               else (Returned JNull, invoke q w)
             else if is_Exception e then
               (Returned JNull, print (''  Warning: '' @ exn_str e) (invoke q w))
             else (Raised e, invoke q w)))"
  by pat_completeness auto
termination
  by (relation "measure (\<lambda>(api, q, attempt, w). MAX_RETRIES - attempt)") auto

declare api_call_from.simps [simp del]

definition api_call :: "remote \<Rightarrow> request \<Rightarrow> world \<Rightarrow> json result \<times> world" where
  "api_call api q w = api_call_from api q 0 w"


section \<open>Calendar dates\<close>

text \<open>
  A \<^verbatim>\<open>datetime.date\<close> is modelled by its proleptic Gregorian ordinal
  (\<^verbatim>\<open>date.toordinal()\<close>: day 1 is 0001-01-01), so that adding a
  \<^verbatim>\<open>timedelta\<close> of \<open>k\<close> days is adding \<open>k\<close>. Python's dates end at
  9999-12-31 (ordinal \<open>3652059\<close>); arithmetic that leaves the range raises there and is
  not modelled.
\<close>

type_synonym date = int

definition is_leap :: "int \<Rightarrow> bool" where
  "is_leap y = (y mod 4 = 0 \<and> (y mod 100 \<noteq> 0 \<or> y mod 400 = 0))"

definition days_before_year :: "int \<Rightarrow> int" where
  "days_before_year y = (y - 1) * 365 + (y - 1) div 4 - (y - 1) div 100 + (y - 1) div 400"

definition days_in_month :: "int \<Rightarrow> nat \<Rightarrow> int" where
  "days_in_month y m =
     (if m = 2 then (if is_leap y then 29 else 28)
      else if m = 4 \<or> m = 6 \<or> m = 9 \<or> m = 11 then 30 else 31)"

definition days_before_month :: "int \<Rightarrow> nat \<Rightarrow> int" where
  "days_before_month y m = sum_list (map (days_in_month y) [1..<m])"

definition ymd2ord :: "int \<Rightarrow> nat \<Rightarrow> int \<Rightarrow> int" where
  "ymd2ord y m d = days_before_year y + days_before_month y m + d"

lemma days_before_year_step: "days_before_year y < days_before_year (y + 1)"
proof -
  have a: "(y - 1) div 4 \<le> y div 4" and c: "(y - 1) div 400 \<le> y div 400"
    by (simp_all add: zdiv_mono1)
  have "y div 100 \<le> (y - 1 + 100) div 100"
    by (intro zdiv_mono1) auto
  then have b: "y div 100 \<le> (y - 1) div 100 + 1"
    by simp
  from a b c show ?thesis
    by (simp add: days_before_year_def)
qed

function find_year :: "int \<Rightarrow> int \<Rightarrow> int" where
  "find_year n y = (if n \<le> days_before_year (y + 1) then y else find_year n (y + 1))"
  by pat_completeness auto
termination
proof (relation "measure (\<lambda>(n, y). nat (n - days_before_year (y + 1)))")
  show "wf (measure (\<lambda>(n, y). nat (n - days_before_year (y + 1))))" by simp
next
  fix n y :: int
  assume "\<not> n \<le> days_before_year (y + 1)"
  moreover have "days_before_year (y + 1) < days_before_year (y + 1 + 1)"
    by (rule days_before_year_step)
  ultimately show "((n, y + 1), (n, y)) \<in> measure (\<lambda>(n, y). nat (n - days_before_year (y + 1)))"
    by simp
qed

declare find_year.simps [simp del]

function find_month :: "int \<Rightarrow> int \<Rightarrow> nat \<Rightarrow> nat" where
  "find_month y r m =
     (if 12 \<le> m \<or> r \<le> days_before_month y (m + 1) then m else find_month y r (m + 1))"
  by pat_completeness auto
termination
  by (relation "measure (\<lambda>(y, r, m). 12 - m)") auto

declare find_month.simps [simp del]

text \<open>Year, month and day of an ordinal: the year and the month the day falls in.\<close>

definition ord2ymd :: "date \<Rightarrow> int \<times> nat \<times> int" where
  "ord2ymd n =
     (let y = find_year n (n div 366 + 1);
          r = n - days_before_year y;
          m = find_month y r 1
      in (y, m, r - days_before_month y m))"

definition zfill :: "nat \<Rightarrow> string \<Rightarrow> string" where
  "zfill k s = replicate (k - length s) CHR ''0'' @ s"

text \<open>\<^verbatim>\<open>d.isoformat()\<close>, that is \<^verbatim>\<open>"%04d-%02d-%02d" % (year, month, day)\<close>.\<close>

definition isoformat :: "date \<Rightarrow> string" where
  "isoformat n =
     (case ord2ymd n of (y, m, d) \<Rightarrow>
        zfill 4 (show_nat (nat y)) @ ''-'' @ zfill 2 (show_nat m) @ ''-'' @ zfill 2 (show_nat (nat d)))"

definition is_digit :: "char \<Rightarrow> bool" where
  "is_digit c = (48 \<le> (of_char c :: nat) \<and> (of_char c :: nat) \<le> 57)"

definition digits_val :: "string \<Rightarrow> nat" where
  "digits_val s = foldl (\<lambda>a c. 10 * a + (of_char c - 48)) 0 s"

fun split_on :: "char \<Rightarrow> string \<Rightarrow> string list" where
  "split_on c [] = [[]]"
| "split_on c (x # xs) =
     (if x = c then [] # split_on c xs
      else (case split_on c xs of [] \<Rightarrow> [[x]] | f # fs \<Rightarrow> (x # f) # fs))"

text \<open>
  \<^verbatim>\<open>datetime.strptime(s, "%Y-%m-%d").date()\<close>: the year is four digits, month and day
  one or two digits (the day also a blank and a digit), all in range for the calendar;
  anything else is a \<^verbatim>\<open>ValueError\<close>.
\<close>

definition strptime_date :: "string \<Rightarrow> date result" where
  "strptime_date s =
     (case split_on CHR ''-'' s of
        [ys, ms, ds] \<Rightarrow>
          let ds' = (if length ds = 2 \<and> hd ds = CHR '' '' then tl ds else ds);
              y = int (digits_val ys); m = digits_val ms; d = int (digits_val ds')
          in if length ys = 4 \<and> list_all is_digit ys
                \<and> ms \<noteq> [] \<and> length ms \<le> 2 \<and> list_all is_digit ms \<and> 1 \<le> m \<and> m \<le> 12
                \<and> ds' \<noteq> [] \<and> length ds' \<le> 2 \<and> list_all is_digit ds' \<and> 1 \<le> d \<and> d \<le> 31
                \<and> 1 \<le> y \<and> d \<le> days_in_month y m
             then Returned (ymd2ord y m d)
             else Raised (OtherError ''ValueError'')
      | _ \<Rightarrow> Raised (OtherError ''ValueError''))"


section \<open>File cache store and sync state store\<close>

definition path_exists :: "string \<Rightarrow> world \<Rightarrow> bool" where
  "path_exists path w = (files w path \<noteq> None)"

text \<open>
  \<^verbatim>\<open>save_json\<close>: the file holds the value afterwards, whatever it held before.
  (Directory creation and serialisation do not fail in the model.)
\<close>

definition save_json :: "string \<Rightarrow> json \<Rightarrow> world \<Rightarrow> world" where
  "save_json path data w = w\<lparr>files := (files w)(path \<mapsto> data), writes := writes w @ [(path, data)]\<rparr>"

definition SYNC_STATE_FILE :: string where
  "SYNC_STATE_FILE = ''sync_state.json''"

text \<open>
  \<^verbatim>\<open>load_sync_state\<close>. \<^verbatim>\<open>state.get\<close> exists on a dict only;
  \<^verbatim>\<open>strptime\<close> wants a string.
\<close>

definition load_sync_state :: "world \<Rightarrow> date option result" where
  "load_sync_state w =
     (case files w SYNC_STATE_FILE of
        None \<Rightarrow> Returned None
      | Some state \<Rightarrow>
          (case state of
             JObj kvs \<Rightarrow>
               let last = dict_get kvs ''last_sync_date'' in
               if truthy last then
                 (case last of
                    JStr s \<Rightarrow>
                      (case strptime_date s of
                         Returned d \<Rightarrow> Returned (Some d)
                       | Raised e \<Rightarrow> Raised e)
                  | _ \<Rightarrow> Raised (OtherError ''TypeError''))
               else Returned None
           | _ \<Rightarrow> Raised (OtherError ''AttributeError'')))"

definition save_sync_state :: "date \<Rightarrow> world \<Rightarrow> world" where
  "save_sync_state sync_date w =
     save_json SYNC_STATE_FILE (JObj [(''last_sync_date'', JStr (isoformat sync_date))]) w"

section \<open>Daily metrics\<close>

text \<open>The table \<^verbatim>\<open>daily_calls\<close>: file name and API method.\<close>

definition daily_calls :: "(string \<times> string) list" where
  "daily_calls =
     [(''summary.json'', ''get_user_summary''),
      (''heart_rate.json'', ''get_heart_rates''),
      (''sleep.json'', ''get_sleep_data''),
      (''stress.json'', ''get_all_day_stress''),
      (''respiration.json'', ''get_respiration_data''),
      (''spo2.json'', ''get_spo2_data''),
      (''hrv.json'', ''get_hrv_data''),
      (''training_readiness.json'', ''get_training_readiness''),
      (''hydration.json'', ''get_hydration_data''),
      (''intensity_minutes.json'', ''get_intensity_minutes_data''),
      (''floors.json'', ''get_floors''),
      (''steps_detail.json'', ''get_steps_data'')]"

definition day_dir :: "string \<Rightarrow> string" where
  "day_dir date_str = ''daily/'' @ date_str @ ''/''"

text \<open>The inner \<^verbatim>\<open>for filename, method in daily_calls\<close> loop of one day.\<close>

fun sync_day_calls :: "remote \<Rightarrow> string \<Rightarrow> (string \<times> string) list \<Rightarrow> world \<Rightarrow> unit result \<times> world" where
  "sync_day_calls api date_str [] w = (Returned (), w)"
| "sync_day_calls api date_str ((filename, method) # rest) w =
     (let filepath = day_dir date_str @ filename in
      if path_exists filepath w then sync_day_calls api date_str rest w
      else
        (case api_call api (Request method [JStr date_str]) w of
           (Raised e, w1) \<Rightarrow> (Raised e, w1)
         | (Returned data, w1) \<Rightarrow>
             sync_day_calls api date_str rest
               (sleep API_DELAY (if data \<noteq> JNull then save_json filepath data w1 else w1))))"

text \<open>One pass of the \<^verbatim>\<open>while current <= end\<close> loop body, after the progress line.\<close>

definition sync_day :: "remote \<Rightarrow> string \<Rightarrow> world \<Rightarrow> unit result \<times> world" where
  "sync_day api date_str w =
     (case sync_day_calls api date_str daily_calls w of
        (Raised e, w1) \<Rightarrow> (Raised e, w1)
      | (Returned u, w1) \<Rightarrow>
          let bb_path = day_dir date_str @ ''body_battery.json'' in
          if \<not> path_exists bb_path w1 then
            (case api_call api (Request ''get_body_battery'' [JStr date_str, JStr date_str]) w1 of
               (Raised e, w2) \<Rightarrow> (Raised e, w2)
             | (Returned data, w2) \<Rightarrow>
                 (Returned (), sleep API_DELAY (if data \<noteq> JNull then save_json bb_path data w2 else w2)))
          else (Returned (), w1))"

function sync_daily_loop :: "remote \<Rightarrow> date \<Rightarrow> date \<Rightarrow> int \<Rightarrow> int \<Rightarrow> world \<Rightarrow> unit result \<times> world" where
  "sync_daily_loop api current end i days w =
     (if current \<le> end then
        let date_str = isoformat current;
            w0 = print (''Syncing daily data: '' @ date_str @ ''... '' @ show_int (i + 1) @ ''/'' @ show_int days) w
        in (case sync_day api date_str w0 of
              (Raised e, w1) \<Rightarrow> (Raised e, w1)
            | (Returned u, w1) \<Rightarrow> sync_daily_loop api (current + 1) end (i + 1) days w1)
      else (Returned (), w))"
  by pat_completeness auto
termination
  by (relation "measure (\<lambda>(api, current, end, i, days, w). nat (end + 1 - current))") auto

declare sync_daily_loop.simps [simp del]

definition sync_daily_data :: "remote \<Rightarrow> date \<Rightarrow> date \<Rightarrow> world \<Rightarrow> unit result \<times> world" where
  "sync_daily_data api start end w = sync_daily_loop api start end 0 (end - start + 1) w"


section \<open>Activities\<close>

text \<open>
  What Python does with a value that is used as a dict (\<^verbatim>\<open>x.get(key)\<close>), iterated
  (\<^verbatim>\<open>for a in x\<close>) or measured (\<^verbatim>\<open>len(x)\<close>): values of the wrong type raise.
\<close>

fun py_get :: "json \<Rightarrow> string \<Rightarrow> json result" where
  "py_get (JObj kvs) key = Returned (dict_get kvs key)"
| "py_get v key = Raised (OtherError ''AttributeError'')"

fun py_iter :: "json \<Rightarrow> json list result" where
  "py_iter (JList xs) = Returned xs"
| "py_iter (JObj kvs) = Returned (map (\<lambda>(k, v). JStr k) kvs)"
| "py_iter (JStr s) = Returned (map (\<lambda>c. JStr [c]) s)"
| "py_iter v = Raised (OtherError ''TypeError'')"

fun py_len :: "json \<Rightarrow> nat result" where
  "py_len (JList xs) = Returned (length xs)"
| "py_len (JObj kvs) = Returned (length kvs)"
| "py_len (JStr s) = Returned (length s)"
| "py_len v = Raised (OtherError ''TypeError'')"

definition activity_path :: "json \<Rightarrow> string" where
  "activity_path aid = ''activities/'' @ py_str aid @ ''.json''"

definition get_activity :: "json \<Rightarrow> request" where
  "get_activity aid = Request ''get_activity'' [JStr (py_str aid)]"

text \<open>The \<^verbatim>\<open>for activity in batch\<close> loop of \<^verbatim>\<open>sync_activities_full\<close>, with its counter.\<close>

fun sync_batch_full :: "remote \<Rightarrow> json list \<Rightarrow> nat \<Rightarrow> world \<Rightarrow> nat result \<times> world" where
  "sync_batch_full api [] tot w = (Returned tot, w)"
| "sync_batch_full api (activity # rest) tot w =
     (case py_get activity ''activityId'' of
        Raised e \<Rightarrow> (Raised e, w)
      | Returned aid \<Rightarrow>
          if \<not> truthy aid then sync_batch_full api rest tot w
          else if path_exists (activity_path aid) w then sync_batch_full api rest (tot + 1) w
          else
            (case api_call api (get_activity aid) w of
               (Raised e, w1) \<Rightarrow> (Raised e, w1)
             | (Returned detail, w1) \<Rightarrow>
                 let w2 = (if detail \<noteq> JNull then save_json (activity_path aid) detail w1
                           else save_json (activity_path aid) activity w1);
                     w3 = print (''  Activity '' @ py_str aid @ '' ('' @ show_nat (tot + 1) @ '')'') w2
                 in sync_batch_full api rest (tot + 1) (sleep API_DELAY w3)))"

text \<open>
  One pass of the \<^verbatim>\<open>while True\<close> loop of \<^verbatim>\<open>sync_activities_full\<close>: it
  leaves the loop (\<^verbatim>\<open>break\<close>, or an exception) or goes round again with a new
  counter. The loop itself need not end.
\<close>

datatype ('r, 's) iteration = Stop 'r | Again 's

definition sync_page ::
  "remote \<Rightarrow> int \<Rightarrow> int \<Rightarrow> nat \<Rightarrow> world \<Rightarrow> (nat result \<times> world, nat \<times> world) iteration" where
  "sync_page api start limit tot w =
     (case api_call api (Request ''get_activities'' [JInt start, JInt limit]) w of
        (Raised e, w1) \<Rightarrow> Stop (Raised e, w1)
      | (Returned batch, w1) \<Rightarrow>
          if \<not> truthy batch then Stop (Returned tot, w1)
          else
            (case py_iter batch of
               Raised e \<Rightarrow> Stop (Raised e, w1)
             | Returned activities \<Rightarrow>
                 (case sync_batch_full api activities tot w1 of
                    (Raised e, w2) \<Rightarrow> Stop (Raised e, w2)
                  | (Returned tot', w2) \<Rightarrow>
                      (case py_len batch of
                         Raised e \<Rightarrow> Stop (Raised e, w2)
                       | Returned n \<Rightarrow>
                           if int n < limit then Stop (Returned tot', w2)
                           else Again (tot', sleep API_DELAY w2)))))"

partial_function (option) sync_full_loop ::
  "remote \<Rightarrow> int \<Rightarrow> int \<Rightarrow> nat \<Rightarrow> world \<Rightarrow> (nat result \<times> world) option" where
  "sync_full_loop api start limit tot w =
     (case sync_page api start limit tot w of
        Stop r \<Rightarrow> Some r
      | Again (tot', w') \<Rightarrow> sync_full_loop api (start + limit) limit tot' w')"

definition sync_activities_full :: "remote \<Rightarrow> world \<Rightarrow> (unit result \<times> world) option" where
  "sync_activities_full api w =
     (case sync_full_loop api 0 100 0 (print ''Syncing all activities (paginated)...'' w) of
        None \<Rightarrow> None
      | Some (Raised e, w1) \<Rightarrow> Some (Raised e, w1)
      | Some (Returned tot, w1) \<Rightarrow>
          Some (Returned (), print (''  '' @ show_nat tot @ '' activities synced.'') w1))"

fun sync_batch_incremental :: "remote \<Rightarrow> json list \<Rightarrow> world \<Rightarrow> unit result \<times> world" where
  "sync_batch_incremental api [] w = (Returned (), w)"
| "sync_batch_incremental api (activity # rest) w =
     (case py_get activity ''activityId'' of
        Raised e \<Rightarrow> (Raised e, w)
      | Returned aid \<Rightarrow>
          if \<not> truthy aid then sync_batch_incremental api rest w
          else if path_exists (activity_path aid) w then sync_batch_incremental api rest w
          else
            (case api_call api (get_activity aid) w of
               (Raised e, w1) \<Rightarrow> (Raised e, w1)
             | (Returned detail, w1) \<Rightarrow>
                 let w2 = (if detail \<noteq> JNull then save_json (activity_path aid) detail w1
                           else save_json (activity_path aid) activity w1);
                     w3 = print (''  Activity '' @ py_str aid) w2
                 in sync_batch_incremental api rest (sleep API_DELAY w3)))"

definition get_activities_by_date :: "date \<Rightarrow> date \<Rightarrow> request" where
  "get_activities_by_date start_date end_date =
     Request ''get_activities_by_date'' [JStr (isoformat start_date), JStr (isoformat end_date)]"

definition sync_activities_incremental :: "remote \<Rightarrow> date \<Rightarrow> date \<Rightarrow> world \<Rightarrow> unit result \<times> world" where
  "sync_activities_incremental api start_date end_date w =
     (case api_call api (get_activities_by_date start_date end_date)
             (print (''Syncing activities from '' @ isoformat start_date @ '' to ''
                       @ isoformat end_date @ ''...'') w) of
        (Raised e, w1) \<Rightarrow> (Raised e, w1)
      | (Returned activities, w1) \<Rightarrow>
          if \<not> truthy activities then (Returned (), print ''  No new activities.'' w1)
          else
            (case py_iter activities of
               Raised e \<Rightarrow> (Raised e, w1)
             | Returned acts \<Rightarrow> sync_batch_incremental api acts w1))"

section \<open>The groups that are always refreshed\<close>

text \<open>
  \<^verbatim>\<open>data = api_call(...); if data is not None: save_json(path, data)\<close>. In a
  sequence of stages an exception ends the sequence.
\<close>

definition fetch_and_save :: "remote \<Rightarrow> request \<Rightarrow> string \<Rightarrow> world \<Rightarrow> unit result \<times> world" where
  "fetch_and_save api q path w =
     (case api_call api q w of
        (Raised e, w1) \<Rightarrow> (Raised e, w1)
      | (Returned data, w1) \<Rightarrow> (Returned (), if data \<noteq> JNull then save_json path data w1 else w1))"

definition get_body_composition :: "date \<Rightarrow> date \<Rightarrow> request" where
  "get_body_composition s e = Request ''get_body_composition'' [JStr (isoformat s), JStr (isoformat e)]"

definition get_weigh_ins :: "date \<Rightarrow> date \<Rightarrow> request" where
  "get_weigh_ins s e = Request ''get_weigh_ins'' [JStr (isoformat s), JStr (isoformat e)]"

definition sync_body_composition :: "remote \<Rightarrow> date \<Rightarrow> date \<Rightarrow> world \<Rightarrow> unit result \<times> world" where
  "sync_body_composition api start_date end_date w =
     (case fetch_and_save api (get_body_composition start_date end_date)
             ''body_composition/body_comp.json'' (print ''Syncing body composition...'' w) of
        (Raised e, w1) \<Rightarrow> (Raised e, w1)
      | (Returned u, w1) \<Rightarrow>
          fetch_and_save api (get_weigh_ins start_date end_date)
            ''body_composition/weigh_ins.json'' (sleep API_DELAY w1))"

text \<open>\<^verbatim>\<open>sync_weekly\<close> reads the clock itself (\<^verbatim>\<open>date.today()\<close>).\<close>

type_synonym clock = "world \<Rightarrow> date"

definition get_weekly_steps :: "date \<Rightarrow> request" where
  "get_weekly_steps d = Request ''get_weekly_steps'' [JStr (isoformat d), JInt 52]"

definition get_weekly_stress :: "date \<Rightarrow> request" where
  "get_weekly_stress d = Request ''get_weekly_stress'' [JStr (isoformat d), JInt 52]"

definition sync_weekly :: "remote \<Rightarrow> clock \<Rightarrow> world \<Rightarrow> unit result \<times> world" where
  "sync_weekly api today w =
     (let w0 = print ''Syncing weekly trends...'' w; d = today w0 in
      case fetch_and_save api (get_weekly_steps d) ''weekly/steps.json'' w0 of
        (Raised e, w1) \<Rightarrow> (Raised e, w1)
      | (Returned u, w1) \<Rightarrow>
          fetch_and_save api (get_weekly_stress d) ''weekly/stress.json'' (sleep API_DELAY w1))"

definition sync_profile :: "remote \<Rightarrow> world \<Rightarrow> unit result \<times> world" where
  "sync_profile api w =
     (case fetch_and_save api (Request ''get_user_profile'' []) ''profile/user_profile.json''
             (print ''Syncing profile...'' w) of
        (Raised e, w1) \<Rightarrow> (Raised e, w1)
      | (Returned u, w1) \<Rightarrow>
          fetch_and_save api (Request ''get_devices'' []) ''profile/devices.json''
            (sleep API_DELAY w1))"

definition sync_personal_records :: "remote \<Rightarrow> world \<Rightarrow> unit result \<times> world" where
  "sync_personal_records api w =
     fetch_and_save api (Request ''get_personal_record'' []) ''personal_records.json''
       (print ''Syncing personal records...'' w)"


section \<open>Session acquisition\<close>

text \<open>
  What \<^verbatim>\<open>init_api\<close> meets outside the script: the outcome of the login with the
  stored tokens, the environment variables \<^verbatim>\<open>EMAIL\<close> and \<^verbatim>\<open>PASSWORD\<close>,
  and, for the \<open>n\<close>-th pass of the credential loop, what the user types at a prompt
  (\<^verbatim>\<open>input\<close>, \<^verbatim>\<open>getpass\<close>), what \<^verbatim>\<open>login\<close> and
  \<^verbatim>\<open>resume_login\<close> do and whether the token dump succeeds. The client that
  \<^verbatim>\<open>init_api\<close> returns carries no data in the model: \<open>True\<close> stands for a
  \<^verbatim>\<open>Garmin\<close> object, \<open>False\<close> for \<^verbatim>\<open>None\<close>.
\<close>

record auth_env =
  stored_login :: "unit result"
  env_email :: "string option"
  env_password :: "string option"
  prompt :: "nat \<Rightarrow> string \<Rightarrow> string result"
  login :: "nat \<Rightarrow> string \<Rightarrow> string \<Rightarrow> (json \<times> json) result"
  resume_login :: "nat \<Rightarrow> json \<Rightarrow> string \<Rightarrow> unit result"
  dump_tokens :: "nat \<Rightarrow> unit result"

text \<open>\<^verbatim>\<open>os.getenv(name) or input(text)\<close>.\<close>

definition getenv_or_prompt :: "string option \<Rightarrow> string result \<Rightarrow> string result" where
  "getenv_or_prompt var asked =
     (case var of None \<Rightarrow> asked | Some s \<Rightarrow> if s \<noteq> [] then Returned s else asked)"

text \<open>
  The \<^verbatim>\<open>except\<close> clauses of the outer \<^verbatim>\<open>try\<close> of the credential loop:
  go round again, return \<^verbatim>\<open>None\<close>, or let the exception pass.
\<close>

fun login_failure :: "exn \<Rightarrow> world \<Rightarrow> (bool result \<times> world, world) iteration" where
  "login_failure (GarminConnectAuthenticationError m) w = Again (print ''Invalid credentials. Try again.'' w)"
| "login_failure (FileNotFoundError m) w = Stop (Returned False, print ''Connection error during login.'' w)"
| "login_failure (GarthHTTPError m) w = Stop (Returned False, print ''Connection error during login.'' w)"
| "login_failure (GarminConnectConnectionError m) w = Stop (Returned False, print ''Connection error during login.'' w)"
| "login_failure (HTTPError m) w = Stop (Returned False, print ''Connection error during login.'' w)"
| "login_failure KeyboardInterrupt w = Stop (Returned False, w)"
| "login_failure e w = Stop (Raised e, w)"

text \<open>
  The \<^verbatim>\<open>except\<close> clauses around \<^verbatim>\<open>resume_login\<close>. \<^verbatim>\<open>sys.exit(1)\<close> raises
  \<open>SystemExit 1\<close>, which no clause of the outer \<^verbatim>\<open>try\<close> takes; an exception that
  is no \<open>GarthException\<close> goes to the outer clauses.
\<close>

fun mfa_failure :: "exn \<Rightarrow> world \<Rightarrow> (bool result \<times> world, world) iteration" where
  "mfa_failure (GarthHTTPError m) w =
     (if contains m ''429'' then
        Stop (Raised (SystemExit 1), print ''Rate limited during MFA. Try again later.'' w)
      else if contains m ''401'' \<or> contains m ''403'' then
        Again (print ''Invalid MFA code. Try again.'' w)
      else Stop (Raised (SystemExit 1), w))"
| "mfa_failure (GarthException m) w = Again (print ''MFA failed. Try again.'' w)"
| "mfa_failure e w = login_failure e w"

definition finish_login :: "auth_env \<Rightarrow> nat \<Rightarrow> world \<Rightarrow> (bool result \<times> world, world) iteration" where
  "finish_login env n w =
     (case dump_tokens env n of
        Raised e \<Rightarrow> login_failure e w
      | Returned u \<Rightarrow> Stop (Returned True, print ''Authenticated successfully.'' w))"

text \<open>One pass of the \<^verbatim>\<open>while True\<close> loop of \<^verbatim>\<open>init_api\<close>.\<close>

definition login_attempt :: "auth_env \<Rightarrow> nat \<Rightarrow> world \<Rightarrow> (bool result \<times> world, world) iteration" where
  "login_attempt env n w =
     (case getenv_or_prompt (env_email env) (prompt env n ''Login email: '') of
        Raised e \<Rightarrow> login_failure e w
      | Returned email \<Rightarrow>
          (case getenv_or_prompt (env_password env) (prompt env n ''Enter password: '') of
             Raised e \<Rightarrow> login_failure e w
           | Returned password \<Rightarrow>
               (case login env n email password of
                  Raised e \<Rightarrow> login_failure e w
                | Returned (result1, result2) \<Rightarrow>
                    if result1 = JStr ''needs_mfa'' then
                      (case prompt env n ''Enter MFA code: '' of
                         Raised e \<Rightarrow> login_failure e w
                       | Returned mfa_code \<Rightarrow>
                           (case resume_login env n result2 mfa_code of
                              Raised e \<Rightarrow> mfa_failure e w
                            | Returned u \<Rightarrow> finish_login env n w))
                    else finish_login env n w)))"

partial_function (option) init_loop :: "auth_env \<Rightarrow> nat \<Rightarrow> world \<Rightarrow> (bool result \<times> world) option" where
  "init_loop env n w =
     (case login_attempt env n w of
        Stop r \<Rightarrow> Some r
      | Again w' \<Rightarrow> init_loop env (Suc n) w')"

text \<open>The first \<^verbatim>\<open>try\<close>: the four classes it names fall through to the loop.\<close>

fun stored_login_falls_through :: "exn \<Rightarrow> bool" where
  "stored_login_falls_through (FileNotFoundError m) = True"
| "stored_login_falls_through (GarthHTTPError m) = True"
| "stored_login_falls_through (GarminConnectAuthenticationError m) = True"
| "stored_login_falls_through (GarminConnectConnectionError m) = True"
| "stored_login_falls_through e = False"

definition init_api :: "auth_env \<Rightarrow> world \<Rightarrow> (bool result \<times> world) option" where
  "init_api env w =
     (case stored_login env of
        Returned u \<Rightarrow> Some (Returned True, print ''Authenticated with stored tokens.'' w)
      | Raised e \<Rightarrow>
          if stored_login_falls_through e then init_loop env 0 w else Some (Raised e, w))"

section \<open>The orchestrator\<close>

definition BASE_DIR :: string where
  "BASE_DIR = ''~/garmin_data''"

text \<open>
  Lines 323 to 351 of \<^verbatim>\<open>main\<close>: the stages, for the mode and the range chosen
  before. Only the full activity sync may fail to end. \<open>sync_rest\<close> is what follows the
  activity sync and its delay.
\<close>

definition sync_rest :: "remote \<Rightarrow> clock \<Rightarrow> date \<Rightarrow> date \<Rightarrow> world \<Rightarrow> unit result \<times> world" where
  "sync_rest api clk start_date today w2 =
     (case sync_body_composition api start_date today w2 of
        (Raised e, w3) \<Rightarrow> (Raised e, w3)
      | (Returned u, w3) \<Rightarrow>
     (case sync_weekly api clk (sleep API_DELAY w3) of
        (Raised e, w4) \<Rightarrow> (Raised e, w4)
      | (Returned u, w4) \<Rightarrow>
     (case sync_profile api (sleep API_DELAY w4) of
        (Raised e, w5) \<Rightarrow> (Raised e, w5)
      | (Returned u, w5) \<Rightarrow>
     (case sync_personal_records api (sleep API_DELAY w5) of
        (Raised e, w6) \<Rightarrow> (Raised e, w6)
      | (Returned u, w6) \<Rightarrow>
          (Returned (),
           print (''Sync complete. Data stored in '' @ BASE_DIR)
             (print [] (save_sync_state today w6)))))))"

definition sync_all ::
  "remote \<Rightarrow> clock \<Rightarrow> bool \<Rightarrow> date \<Rightarrow> date \<Rightarrow> world \<Rightarrow> (unit result \<times> world) option" where
  "sync_all api clk incremental start_date today w =
     (case sync_daily_data api start_date today w of
        (Raised e, w1) \<Rightarrow> Some (Raised e, w1)
      | (Returned u, w1) \<Rightarrow>
          (case (if incremental
                 then Some (sync_activities_incremental api start_date today (sleep API_DELAY w1))
                 else sync_activities_full api (sleep API_DELAY w1)) of
             None \<Rightarrow> None
           | Some (Raised e, w2) \<Rightarrow> Some (Raised e, w2)
           | Some (Returned u, w2) \<Rightarrow>
               Some (sync_rest api clk start_date today (sleep API_DELAY w2))))"

text \<open>
  \<^verbatim>\<open>main\<close>. \<^verbatim>\<open>sys.exit(1)\<close> is the exception \<open>SystemExit 1\<close>. A date is
  always truthy, so \<^verbatim>\<open>if last_sync:\<close> asks whether a date was loaded.
\<close>

definition main :: "auth_env \<Rightarrow> remote \<Rightarrow> clock \<Rightarrow> world \<Rightarrow> (unit result \<times> world) option" where
  "main env api clk w =
     (case init_api env w of
        None \<Rightarrow> None
      | Some (Raised e, w1) \<Rightarrow> Some (Raised e, w1)
      | Some (Returned client, w1) \<Rightarrow>
          if \<not> client then Some (Raised (SystemExit 1), print ''Failed to authenticate.'' w1)
          else
            let today = clk w1 in
            (case load_sync_state w1 of
               Raised e \<Rightarrow> Some (Raised e, w1)
             | Returned last_sync \<Rightarrow>
                 (case last_sync of
                    Some d \<Rightarrow>
                      sync_all api clk True d today
                        (print (''Incremental sync from '' @ isoformat d @ '' to '' @ isoformat today) w1)
                  | None \<Rightarrow>
                      sync_all api clk False (today - HISTORY_DAYS) today
                        (print (''Initial sync: '' @ isoformat (today - HISTORY_DAYS) @ '' to ''
                                  @ isoformat today @ '' ('' @ show_int HISTORY_DAYS @ '' days)'') w1))))"

text \<open>
  The \<^verbatim>\<open>if __name__ == "__main__"\<close> block and the interpreter around it, giving the
  exit status of the process: \<open>0\<close> after a normal return and after the handled
  \<open>KeyboardInterrupt\<close>, the code of a \<open>SystemExit\<close>, and \<open>1\<close> for an uncaught
  exception.
\<close>

definition run :: "auth_env \<Rightarrow> remote \<Rightarrow> clock \<Rightarrow> world \<Rightarrow> (nat \<times> world) option" where
  "run env api clk w =
     (case main env api clk w of
        None \<Rightarrow> None
      | Some (Returned u, w1) \<Rightarrow> Some (0, w1)
      | Some (Raised e, w1) \<Rightarrow>
          (case e of
             KeyboardInterrupt \<Rightarrow> Some (0, print ''Sync interrupted.'' (print [] w1))
           | SystemExit n \<Rightarrow> Some (n, w1)
           | _ \<Rightarrow> Some (1, w1)))"


section \<open>Notions used in the statements\<close>

definition empty_world :: world where
  "empty_world = \<lparr>files = Map.empty, writes = [], calls = [], sleeps = [], out = []\<rparr>"

text \<open>
  The errors \<^verbatim>\<open>api_call\<close> treats as a rate limit: a
  \<open>GarminConnectTooManyRequestsError\<close>, or a \<open>GarthHTTPError\<close> whose text has
  \<^verbatim>\<open>429\<close> in it.
\<close>

definition rate_limit_error :: "exn \<Rightarrow> bool" where
  "rate_limit_error e =
     (is_rate_limit_class e \<and> (contains (exn_str e) ''429'' \<or> is_TooManyRequests e))"

fun rate_limited :: "json result \<Rightarrow> bool" where
  "rate_limited (Returned v) = False"
| "rate_limited (Raised e) = rate_limit_error e"

text \<open>The world after the \<open>k\<close>-th attempt hit a rate limit: the call, the report, the wait.\<close>

definition backoff :: "request \<Rightarrow> nat \<Rightarrow> world \<Rightarrow> world" where
  "backoff q k w =
     sleep (RETRY_BACKOFF * k)
       (print (''  Rate limited, waiting '' @ show_nat (RETRY_BACKOFF * k) @ ''s...'') (invoke q w))"

text \<open>
  What \<^verbatim>\<open>api_call\<close> makes of an attempt that did not hit a rate limit: the value;
  absent, silently, for an HTTP error; absent with a warning for any other
  \<^verbatim>\<open>Exception\<close>; and the exception itself when it is none.
\<close>

fun settle :: "json result \<Rightarrow> world \<Rightarrow> json result \<times> world" where
  "settle (Returned v) w = (Returned v, w)"
| "settle (Raised e) w =
     (if is_rate_limit_class e then (Returned JNull, w)
      else if is_Exception e then (Returned JNull, print (''  Warning: '' @ exn_str e) w)
      else (Raised e, w))"

text \<open>A remote whose first two answers are a rate limit, and one that is always limited.\<close>

definition flaky :: remote where
  "flaky w q =
     (if length (calls w) < 2 then Raised (GarminConnectTooManyRequestsError ''Too Many Requests'')
      else Returned (JInt 7))"

definition throttled :: remote where
  "throttled w q = Raised (GarthHTTPError ''Error in request: 429 Client Error'')"

definition floors_request :: request where
  "floors_request = Request ''get_floors'' [JStr ''2026-11-03'']"

text \<open>A remote that answers with an HTTP error that is no rate limit, and one that is interrupted.\<close>

definition server_error :: remote where
  "server_error w q = Raised (GarthHTTPError ''Error in request: 500 Server Error'')"

definition interrupted :: remote where
  "interrupted w q = Raised KeyboardInterrupt"

text \<open>
  A session that the stored tokens restore, a fixed clock (2026-11-03, ordinal 739923),
  a remote with nothing to give, and file trees whose state file holds 2026-10-31 or an
  empty date.
\<close>

definition stored_tokens :: auth_env where
  "stored_tokens =
     \<lparr>stored_login = Returned (), env_email = None, env_password = None,
      prompt = (\<lambda>n text. Raised KeyboardInterrupt),
      login = (\<lambda>n email password. Raised (GarminConnectConnectionError ''unreachable'')),
      resume_login = (\<lambda>n state code. Returned ()),
      dump_tokens = (\<lambda>n. Returned ())\<rparr>"

definition nov3 :: clock where
  "nov3 w = 739923"

definition silent :: remote where
  "silent w q = Returned JNull"

definition synced_oct31 :: world where
  "synced_oct31 =
     empty_world\<lparr>files := [SYNC_STATE_FILE \<mapsto> JObj [(''last_sync_date'', JStr ''2026-10-31'')]]\<rparr>"

definition blank_state :: world where
  "blank_state =
     empty_world\<lparr>files := [SYNC_STATE_FILE \<mapsto> JObj [(''last_sync_date'', JStr [])]]\<rparr>"

text \<open>An activity record that the loops pass over: its \<^verbatim>\<open>activityId\<close> is missing or falsy.\<close>

fun skipped :: "json \<Rightarrow> bool" where
  "skipped (JObj kvs) = (\<not> truthy (dict_get kvs ''activityId''))"
| "skipped v = False"

definition unidentified :: "json list" where
  "unidentified =
     [JObj [(''activityName'', JStr ''Run'')],
      JObj [(''activityId'', JInt 0), (''activityName'', JStr ''Walk'')],
      JObj [(''activityId'', JNull)],
      JObj [(''activityId'', JStr [])]]"

text \<open>
  The outcome of \<^verbatim>\<open>resume_login\<close> in pass \<open>n\<close> of the credential loop, when
  the pass gets as far as the MFA step.
\<close>

definition mfa_outcome :: "auth_env \<Rightarrow> nat \<Rightarrow> unit result option" where
  "mfa_outcome env n =
     (case getenv_or_prompt (env_email env) (prompt env n ''Login email: '') of
        Raised e \<Rightarrow> None
      | Returned email \<Rightarrow>
          (case getenv_or_prompt (env_password env) (prompt env n ''Enter password: '') of
             Raised e \<Rightarrow> None
           | Returned password \<Rightarrow>
               (case login env n email password of
                  Raised e \<Rightarrow> None
                | Returned (result1, result2) \<Rightarrow>
                    if result1 = JStr ''needs_mfa'' then
                      (case prompt env n ''Enter MFA code: '' of
                         Raised e \<Rightarrow> None
                       | Returned mfa_code \<Rightarrow> Some (resume_login env n result2 mfa_code))
                    else None)))"

text \<open>
  Sessions without stored tokens. In \<open>mfa_hiccup\<close> the MFA step of the first pass fails
  with an error that is no HTTP error and the second pass goes through; in
  \<open>mfa_limited\<close> the MFA step meets a rate limit; in \<open>prompt_interrupted\<close> the user
  interrupts the first prompt.
\<close>

definition mfa_hiccup :: auth_env where
  "mfa_hiccup =
     \<lparr>stored_login = Raised (FileNotFoundError ''~/.garminconnect''),
      env_email = Some ''me@example.org'', env_password = Some ''secret'',
      prompt = (\<lambda>n text. Returned ''123456''),
      login = (\<lambda>n email password. Returned (JStr ''needs_mfa'', JObj [])),
      resume_login =
        (\<lambda>n state code. if n = 0 then Raised (GarthException ''MFA error'') else Returned ()),
      dump_tokens = (\<lambda>n. Returned ())\<rparr>"

definition mfa_limited :: auth_env where
  "mfa_limited =
     mfa_hiccup\<lparr>resume_login := (\<lambda>n state code. Raised (GarthHTTPError ''429 Too Many Requests''))\<rparr>"

definition prompt_interrupted :: auth_env where
  "prompt_interrupted =
     \<lparr>stored_login = Raised (FileNotFoundError ''~/.garminconnect''),
      env_email = None, env_password = None,
      prompt = (\<lambda>n text. Raised KeyboardInterrupt),
      login = (\<lambda>n email password. Returned (JStr ''ok'', JNull)),
      resume_login = (\<lambda>n state code. Returned ()),
      dump_tokens = (\<lambda>n. Returned ())\<rparr>"

text \<open>
  For the daily sync: the file that a remote invocation is for, the invariant that links
  a world to the one the sync started from (what was written and invoked since, each
  write to a path that did not exist at the start, each invocation for such a path), the
  file names of a day and the paths of a range of days.
\<close>

definition request_path :: "request \<Rightarrow> string option" where
  "request_path q =
     (case q of Request m args \<Rightarrow>
        (case args of
           [JStr ds] \<Rightarrow>
             (case map_of (map (\<lambda>(f, m). (m, f)) daily_calls) m of
                Some f \<Rightarrow> Some (day_dir ds @ f)
              | None \<Rightarrow> None)
         | [JStr ds, JStr ds'] \<Rightarrow>
             if m = ''get_body_battery'' \<and> ds' = ds then Some (day_dir ds @ ''body_battery.json'')
             else None
         | _ \<Rightarrow> None))"

definition daily_inv :: "string set \<Rightarrow> world \<Rightarrow> world \<Rightarrow> bool" where
  "daily_inv A w0 w =
     (\<exists>ws cs. writes w = writes w0 @ ws \<and> calls w = calls w0 @ cs
        \<and> distinct (map fst ws)
        \<and> (\<forall>p \<in> fst ` set ws. p \<in> A \<and> files w0 p = None)
        \<and> dom (files w) = dom (files w0) \<union> fst ` set ws
        \<and> (\<forall>q \<in> set cs. \<exists>p. request_path q = Some p \<and> files w0 p = None))"

definition daily_files :: "string list" where
  "daily_files = map fst daily_calls @ [''body_battery.json'']"

definition daily_paths :: "date \<Rightarrow> date \<Rightarrow> string set" where
  "daily_paths start end =
     {day_dir (isoformat d) @ f | d f. start \<le> d \<and> d \<le> end \<and> f \<in> set daily_files}"

definition measured :: remote where
  "measured w q = Returned (JObj [(''value'', JInt 1)])"

definition summary_cached :: world where
  "summary_cached = empty_world\<lparr>files := [''daily/2026-11-03/summary.json'' \<mapsto> JObj []]\<rparr>"



text \<open>
  For the pagination: records, the list request for page \<open>i\<close>, pages that make the loop
  go on or end it, and a source of three pages of 100, 100 and 37 activities.
\<close>

fun is_record :: "json \<Rightarrow> bool" where
  "is_record (JObj kvs) = True"
| "is_record v = False"

definition page_request :: "nat \<Rightarrow> request" where
  "page_request i = Request ''get_activities'' [JInt (100 * int i), JInt 100]"

fun is_page_request :: "request \<Rightarrow> bool" where
  "is_page_request (Request m args) = (m = ''get_activities'')"

text \<open>A page that makes the loop go on, and one that ends it.\<close>

fun full_page :: "json \<Rightarrow> bool" where
  "full_page (JList b) = (100 \<le> length b \<and> list_all is_record b)"
| "full_page v = False"

fun last_page :: "json \<Rightarrow> bool" where
  "last_page (JList b) = (length b < 100 \<and> list_all is_record b)"
| "last_page v = (\<not> truthy v)"

definition page_of :: "nat \<Rightarrow> nat \<Rightarrow> json" where
  "page_of i len = JList (map (\<lambda>j. JObj [(''activityId'', JInt (int (100 * i + j + 1)))]) [0..<len])"

definition three_pages :: "nat \<Rightarrow> json" where
  "three_pages i = (if i = 0 then page_of 0 100 else if i = 1 then page_of 1 100 else page_of 2 37)"

definition paged_source :: remote where
  "paged_source w q =
     (if q = page_request 0 then Returned (three_pages 0)
      else if q = page_request 1 then Returned (three_pages 1)
      else if q = page_request 2 then Returned (three_pages 2)
      else Returned JNull)"

text \<open>A \<open>KeyboardInterrupt\<close> is raised somewhere in pass \<open>n\<close> of the credential loop.\<close>

definition attempt_interrupted :: "auth_env \<Rightarrow> nat \<Rightarrow> bool" where
  "attempt_interrupted env n =
     (case getenv_or_prompt (env_email env) (prompt env n ''Login email: '') of
        Raised e \<Rightarrow> e = KeyboardInterrupt
      | Returned email \<Rightarrow>
          (case getenv_or_prompt (env_password env) (prompt env n ''Enter password: '') of
             Raised e \<Rightarrow> e = KeyboardInterrupt
           | Returned password \<Rightarrow>
               (case login env n email password of
                  Raised e \<Rightarrow> e = KeyboardInterrupt
                | Returned (result1, result2) \<Rightarrow>
                    if result1 = JStr ''needs_mfa'' then
                      (case prompt env n ''Enter MFA code: '' of
                         Raised e \<Rightarrow> e = KeyboardInterrupt
                       | Returned mfa_code \<Rightarrow>
                           (case resume_login env n result2 mfa_code of
                              Raised e \<Rightarrow> e = KeyboardInterrupt
                            | Returned u \<Rightarrow> dump_tokens env n = Raised KeyboardInterrupt))
                    else dump_tokens env n = Raised KeyboardInterrupt)))"

text \<open>The world in which pass \<open>n\<close> starts, when every pass before it went round again.\<close>

fun reach :: "auth_env \<Rightarrow> nat \<Rightarrow> world \<Rightarrow> world option" where
  "reach env 0 w = Some w"
| "reach env (Suc n) w =
     (case reach env n w of
        None \<Rightarrow> None
      | Some w' \<Rightarrow> (case login_attempt env n w' of Again w'' \<Rightarrow> Some w'' | Stop r \<Rightarrow> None))"

text \<open>The remote is interrupted from its \<open>(k + 1)\<close>-th invocation on.\<close>

definition dead_from :: "remote \<Rightarrow> nat \<Rightarrow> bool" where
  "dead_from api k = (\<forall>w q. k \<le> length (calls w) \<longrightarrow> api w q = Raised KeyboardInterrupt)"

text \<open>
  A stage that went from \<open>w\<close> to \<open>w'\<close> with result \<open>r\<close> passed the interrupt on, or did
  not invoke the remote after the interrupt came.
\<close>

definition cut_off :: "nat \<Rightarrow> world \<Rightarrow> 'a result \<Rightarrow> world \<Rightarrow> bool" where
  "cut_off k w r w' =
     (r = Raised KeyboardInterrupt \<or> length (calls w') \<le> k \<or> calls w' = calls w)"

text \<open>
  Two more sessions: in \<open>password_interrupted\<close> the first pass of the credential loop is
  refused and the user interrupts the password prompt of the second; in
  \<open>login_interrupted\<close> the login with the stored tokens is interrupted.
\<close>

definition password_interrupted :: auth_env where
  "password_interrupted =
     \<lparr>stored_login = Raised (FileNotFoundError ''~/.garminconnect''),
      env_email = Some ''me@example.org'', env_password = None,
      prompt = (\<lambda>n text. if n = 0 then Returned ''guess'' else Raised KeyboardInterrupt),
      login = (\<lambda>n email password. Raised (GarminConnectAuthenticationError ''401'')),
      resume_login = (\<lambda>n state code. Returned ()),
      dump_tokens = (\<lambda>n. Returned ())\<rparr>"

definition login_interrupted :: auth_env where
  "login_interrupted = prompt_interrupted\<lparr>stored_login := Raised KeyboardInterrupt\<rparr>"

section \<open>The world is only ever extended\<close>

lemma print_fields [simp]:
  "files (print s w) = files w" "writes (print s w) = writes w" "calls (print s w) = calls w"
  "sleeps (print s w) = sleeps w" "out (print s w) = out w @ [s]"
  by (simp_all add: print_def)

lemma sleep_fields [simp]:
  "files (sleep n w) = files w" "writes (sleep n w) = writes w" "calls (sleep n w) = calls w"
  "sleeps (sleep n w) = sleeps w @ [n]" "out (sleep n w) = out w"
  by (simp_all add: sleep_def)

lemma invoke_fields [simp]:
  "files (invoke q w) = files w" "writes (invoke q w) = writes w" "calls (invoke q w) = calls w @ [q]"
  "sleeps (invoke q w) = sleeps w" "out (invoke q w) = out w"
  by (simp_all add: invoke_def)

lemma save_json_fields [simp]:
  "files (save_json p d w) = (files w)(p \<mapsto> d)" "writes (save_json p d w) = writes w @ [(p, d)]"
  "calls (save_json p d w) = calls w" "sleeps (save_json p d w) = sleeps w" "out (save_json p d w) = out w"
  by (simp_all add: save_json_def)

lemma backoff_fields [simp]:
  "files (backoff q k w) = files w" "writes (backoff q k w) = writes w"
  "calls (backoff q k w) = calls w @ [q]" "sleeps (backoff q k w) = sleeps w @ [RETRY_BACKOFF * k]"
  by (simp_all add: backoff_def)

lemma settle_fields [simp]:
  "files (snd (settle r w)) = files w" "writes (snd (settle r w)) = writes w"
  "calls (snd (settle r w)) = calls w" "sleeps (snd (settle r w)) = sleeps w"
  by (cases r; simp)+

section \<open>The retrying caller, attempt by attempt\<close>

lemma api_call_from_limited:
  "attempt < MAX_RETRIES \<Longrightarrow> rate_limited (api w q) \<Longrightarrow>
   api_call_from api q attempt w = api_call_from api q (Suc attempt) (backoff q (Suc attempt) w)"
  apply (subst api_call_from.simps)
  apply (cases "api w q")
   apply simp
  apply (simp add: rate_limit_error_def backoff_def Let_def)
  done

lemma api_call_from_settled:
  "attempt < MAX_RETRIES \<Longrightarrow> \<not> rate_limited (api w q) \<Longrightarrow>
   api_call_from api q attempt w = settle (api w q) (invoke q w)"
  apply (subst api_call_from.simps)
  apply (cases "api w q")
   apply simp
  apply (simp add: rate_limit_error_def)
  done

lemma api_call_from_exhausted:
  "api_call_from api q MAX_RETRIES w = (Returned JNull, print ''  Giving up after max retries.'' w)"
  by (subst api_call_from.simps) simp

lemma api_call_unrolled:
  "api_call api q w =
    (if \<not> rate_limited (api w q) then settle (api w q) (invoke q w)
     else if \<not> rate_limited (api (backoff q 1 w) q)
       then settle (api (backoff q 1 w) q) (invoke q (backoff q 1 w))
     else if \<not> rate_limited (api (backoff q 2 (backoff q 1 w)) q)
       then settle (api (backoff q 2 (backoff q 1 w)) q) (invoke q (backoff q 2 (backoff q 1 w)))
     else (Returned JNull,
           print ''  Giving up after max retries.'' (backoff q 3 (backoff q 2 (backoff q 1 w)))))"
proof -
  have m: "MAX_RETRIES = 3" by (simp add: MAX_RETRIES_def)
  have l: "\<And>k w. k < 3 \<Longrightarrow> rate_limited (api w q) \<Longrightarrow>
      api_call_from api q k w = api_call_from api q (Suc k) (backoff q (Suc k) w)"
    using api_call_from_limited[of _ api _ q] by (simp add: m)
  have s: "\<And>k w. k < 3 \<Longrightarrow> \<not> rate_limited (api w q) \<Longrightarrow>
      api_call_from api q k w = settle (api w q) (invoke q w)"
    using api_call_from_settled[of _ api _ q] by (simp add: m)
  have e: "\<And>w. api_call_from api q (Suc (Suc (Suc 0))) w =
      (Returned JNull, print ''  Giving up after max retries.'' w)"
    using api_call_from_exhausted[of api q] by (simp add: m numeral_3_eq_3)
  show ?thesis
  proof (cases "rate_limited (api w q)")
    case False
    then show ?thesis by (simp add: api_call_def s)
  next
    case r1: True
    show ?thesis
    proof (cases "rate_limited (api (backoff q 1 w) q)")
      case False
      with r1 show ?thesis by (simp add: api_call_def l[of 0] s[of "Suc 0"])
    next
      case r2: True
      show ?thesis
      proof (cases "rate_limited (api (backoff q 2 (backoff q 1 w)) q)")
        case False
        with r1 r2 show ?thesis
          by (simp add: api_call_def l[of 0] l[of "Suc 0"] s[of "Suc (Suc 0)"] numeral_2_eq_2)
      next
        case True
        with r1 r2 show ?thesis
          by (simp add: api_call_def l[of 0] l[of "Suc 0"] l[of "Suc (Suc 0)"] e
                numeral_2_eq_2 numeral_3_eq_3)
      qed
    qed
  qed
qed

lemma api_call_files [simp]: "files (snd (api_call api q w)) = files w"
  by (simp add: api_call_unrolled)

lemma api_call_writes [simp]: "writes (snd (api_call api q w)) = writes w"
  by (simp add: api_call_unrolled)

lemma settle_no_Exception: "fst (settle r w) = Raised e \<Longrightarrow> \<not> is_Exception e"
  by (cases r) (auto split: if_splits)

lemma api_call_no_Exception: "fst (api_call api q w) = Raised e \<Longrightarrow> \<not> is_Exception e"
  by (auto simp: api_call_unrolled split: if_splits dest: settle_no_Exception)

section \<open>C2: the retrying caller\<close>

text \<open>
  C2, as the code has it. \<^verbatim>\<open>api_call\<close> makes at most three attempts. While an
  attempt raises a rate-limit error it reports, waits \<open>RETRY_BACKOFF * k\<close> seconds after
  the \<open>k\<close>-th attempt and, for \<open>k < 3\<close>, tries again; the first attempt that does not hit
  a rate limit decides: its value is returned, an HTTP error without \<^verbatim>\<open>429\<close> gives
  absent with nothing printed, any other \<^verbatim>\<open>Exception\<close> gives absent with a
  warning, and an exception outside \<^verbatim>\<open>Exception\<close> (\<open>KeyboardInterrupt\<close>) leaves the
  function. After three rate-limit errors it reports and returns absent. It never writes
  a file, and no exception of class \<^verbatim>\<open>Exception\<close> leaves it.
\<close>

theorem c2_api_call:
  "api_call api q w =
    (if \<not> rate_limited (api w q) then settle (api w q) (invoke q w)
     else if \<not> rate_limited (api (backoff q 1 w) q)
       then settle (api (backoff q 1 w) q) (invoke q (backoff q 1 w))
     else if \<not> rate_limited (api (backoff q 2 (backoff q 1 w)) q)
       then settle (api (backoff q 2 (backoff q 1 w)) q) (invoke q (backoff q 2 (backoff q 1 w)))
     else (Returned JNull,
           print ''  Giving up after max retries.'' (backoff q 3 (backoff q 2 (backoff q 1 w)))))
   \<and> files (snd (api_call api q w)) = files w
   \<and> writes (snd (api_call api q w)) = writes w
   \<and> (\<forall>e. fst (api_call api q w) = Raised e \<longrightarrow> \<not> is_Exception e)"
  using api_call_unrolled[of api q w] api_call_no_Exception[of api q w] by simp

text \<open>
  Two rate limits and then a value: the value after waits of 5 and 10 seconds. Always
  limited: absent after three attempts and waits of 5, 10 and 15 seconds, nothing written.
\<close>

theorem c2_api_call_witness:
  "fst (api_call flaky floors_request empty_world) = Returned (JInt 7)
   \<and> sleeps (snd (api_call flaky floors_request empty_world)) = [5, 10]
   \<and> calls (snd (api_call flaky floors_request empty_world))
       = [floors_request, floors_request, floors_request]
   \<and> fst (api_call throttled floors_request empty_world) = Returned JNull
   \<and> sleeps (snd (api_call throttled floors_request empty_world)) = [5, 10, 15]
   \<and> calls (snd (api_call throttled floors_request empty_world))
       = [floors_request, floors_request, floors_request]
   \<and> writes (snd (api_call throttled floors_request empty_world)) = []"
  using c2_api_call[of flaky floors_request empty_world]
        c2_api_call[of throttled floors_request empty_world]
  by (simp add: flaky_def throttled_def empty_world_def rate_limit_error_def RETRY_BACKOFF_def)

text \<open>
  C2 as stated fails twice: an HTTP error that is no rate limit is turned into absent
  without any report, and a \<open>KeyboardInterrupt\<close> raised by the operation reaches the caller.
\<close>

theorem c2_counterexample:
  "fst (api_call server_error floors_request empty_world) = Returned JNull
   \<and> out (snd (api_call server_error floors_request empty_world)) = out empty_world
   \<and> fst (api_call interrupted floors_request empty_world) = Raised KeyboardInterrupt"
  by (simp add: api_call_unrolled server_error_def interrupted_def rate_limit_error_def)

section \<open>C3 and C10: the sync state and the mode\<close>

lemma load_sync_state_print [simp]: "load_sync_state (print s w) = load_sync_state w"
  by (simp add: load_sync_state_def)

lemma init_api_stored_tokens:
  "init_api stored_tokens w = Some (Returned True, print ''Authenticated with stored tokens.'' w)"
  by (simp add: init_api_def stored_tokens_def)

lemma load_synced_oct31: "load_sync_state synced_oct31 = Returned (Some 739920)"
  by code_simp

lemma load_empty_world: "load_sync_state empty_world = Returned None"
  by (simp add: load_sync_state_def empty_world_def)

lemma blank_state_file:
  "files (print s blank_state) SYNC_STATE_FILE = Some (JObj [(''last_sync_date'', JStr [])])"
  by (simp add: blank_state_def empty_world_def)

text \<open>
  C3. Once the session is there (world \<open>w1\<close>), \<^verbatim>\<open>main\<close> reads the clock and the
  state file once. If \<^verbatim>\<open>load_sync_state\<close> returns a date \<open>x\<close>, every stage runs
  in incremental mode on the range from \<open>x\<close> to today; if it returns absent, every stage
  runs in initial mode on the range from today minus 365 days to today.
\<close>

theorem c3_mode_selection:
  assumes "init_api env w = Some (Returned True, w1)"
  shows "(load_sync_state w1 = Returned (Some x) \<longrightarrow>
            main env api clk w =
              sync_all api clk True x (clk w1)
                (print (''Incremental sync from '' @ isoformat x @ '' to '' @ isoformat (clk w1)) w1))
       \<and> (load_sync_state w1 = Returned None \<longrightarrow>
            main env api clk w =
              sync_all api clk False (clk w1 - 365) (clk w1)
                (print (''Initial sync: '' @ isoformat (clk w1 - 365) @ '' to '' @ isoformat (clk w1)
                          @ '' ('' @ show_int 365 @ '' days)'') w1))"
  using assms by (simp add: main_def HISTORY_DAYS_def Let_def)

text \<open>
  On 2026-11-03: a state file holding 2026-10-31 gives the range from 2026-10-31
  (ordinal 739920); no state file gives the range from 2025-11-03 (ordinal 739558).
\<close>

theorem c3_mode_selection_witness:
  "main stored_tokens silent nov3 synced_oct31 =
     sync_all silent nov3 True 739920 739923
       (print (''Incremental sync from '' @ isoformat 739920 @ '' to '' @ isoformat 739923)
          (print ''Authenticated with stored tokens.'' synced_oct31))
   \<and> main stored_tokens silent nov3 empty_world =
     sync_all silent nov3 False 739558 739923
       (print (''Initial sync: '' @ isoformat 739558 @ '' to '' @ isoformat 739923
                 @ '' ('' @ show_int 365 @ '' days)'')
          (print ''Authenticated with stored tokens.'' empty_world))"
  using c3_mode_selection[OF init_api_stored_tokens, of synced_oct31 739920 silent nov3]
        c3_mode_selection[OF init_api_stored_tokens, of empty_world 739920 silent nov3]
  by (simp add: load_synced_oct31 load_empty_world nov3_def)

text \<open>
  C10. \<^verbatim>\<open>load_sync_state\<close> returns absent when there is no state file, and also
  when the file holds a JSON object whose \<^verbatim>\<open>last_sync_date\<close> is missing or falsy;
  \<^verbatim>\<open>main\<close> then runs in initial mode on the 365-day range.
\<close>

theorem c10_load_sync_state_absent:
  "(files w SYNC_STATE_FILE = None \<longrightarrow> load_sync_state w = Returned None)
   \<and> (files w SYNC_STATE_FILE = Some (JObj kvs) \<and> \<not> truthy (dict_get kvs ''last_sync_date'')
        \<longrightarrow> load_sync_state w = Returned None)
   \<and> (init_api env w0 = Some (Returned True, w) \<and> load_sync_state w = Returned None \<longrightarrow>
        main env api clk w0 =
          sync_all api clk False (clk w - 365) (clk w)
            (print (''Initial sync: '' @ isoformat (clk w - 365) @ '' to '' @ isoformat (clk w)
                      @ '' ('' @ show_int 365 @ '' days)'') w))"
  by (simp add: load_sync_state_def main_def HISTORY_DAYS_def Let_def)

text \<open>No state file, and a state file whose date is the empty string.\<close>

theorem c10_load_sync_state_absent_witness:
  "load_sync_state empty_world = Returned None
   \<and> load_sync_state (print ''Authenticated with stored tokens.'' blank_state) = Returned None
   \<and> main stored_tokens silent nov3 blank_state =
         sync_all silent nov3 False 739558 739923
           (print (''Initial sync: '' @ isoformat 739558 @ '' to '' @ isoformat 739923
                     @ '' ('' @ show_int 365 @ '' days)'')
              (print ''Authenticated with stored tokens.'' blank_state))"
proof -
  let ?w = "print ''Authenticated with stored tokens.'' blank_state"
  note c = c10_load_sync_state_absent[of _ "[(''last_sync_date'', JStr [])]"
             stored_tokens blank_state silent nov3]
  have a: "load_sync_state empty_world = Returned None"
    using c10_load_sync_state_absent[of empty_world] by (simp add: empty_world_def)
  have b: "load_sync_state ?w = Returned None"
    using c[of ?w] blank_state_file by (simp add: dict_get_def)
  show ?thesis
    using a b c[of ?w] init_api_stored_tokens[of blank_state] by (simp add: nov3_def)
qed

section \<open>C9: activities without an identifier\<close>

lemma sync_batch_full_skip:
  "skipped a \<Longrightarrow> sync_batch_full api (a # rest) tot w = sync_batch_full api rest tot w"
  by (cases a) auto

lemma sync_batch_incremental_skip:
  "skipped a \<Longrightarrow> sync_batch_incremental api (a # rest) w = sync_batch_incremental api rest w"
  by (cases a) auto

lemma sync_batch_full_cong:
  "(\<And>tot w. sync_batch_full api xs tot w = sync_batch_full api ys tot w) \<Longrightarrow>
   sync_batch_full api (a # xs) tot w = sync_batch_full api (a # ys) tot w"
  by (simp split: result.splits prod.splits)

lemma sync_batch_incremental_cong:
  "(\<And>w. sync_batch_incremental api xs w = sync_batch_incremental api ys w) \<Longrightarrow>
   sync_batch_incremental api (a # xs) w = sync_batch_incremental api (a # ys) w"
  by (simp split: result.splits prod.splits)

lemma sync_batch_full_filter:
  "sync_batch_full api acts tot w = sync_batch_full api (filter (\<lambda>a. \<not> skipped a) acts) tot w"
proof (induction acts arbitrary: tot w)
  case Nil
  show ?case by simp
next
  case (Cons a acts)
  show ?case
  proof (cases "skipped a")
    case True
    then show ?thesis using Cons.IH by (simp add: sync_batch_full_skip del: sync_batch_full.simps)
  next
    case False
    then show ?thesis
      using sync_batch_full_cong[of api acts "filter (\<lambda>a. \<not> skipped a) acts" a tot w] Cons.IH
      by (simp del: sync_batch_full.simps)
  qed
qed

lemma sync_batch_incremental_filter:
  "sync_batch_incremental api acts w = sync_batch_incremental api (filter (\<lambda>a. \<not> skipped a) acts) w"
proof (induction acts arbitrary: w)
  case Nil
  show ?case by simp
next
  case (Cons a acts)
  show ?case
  proof (cases "skipped a")
    case True
    then show ?thesis using Cons.IH by (simp add: sync_batch_incremental_skip del: sync_batch_incremental.simps)
  next
    case False
    then show ?thesis
      using sync_batch_incremental_cong[of api acts "filter (\<lambda>a. \<not> skipped a) acts" a w] Cons.IH
      by (simp del: sync_batch_incremental.simps)
  qed
qed

text \<open>
  C9. In both activity loops a record whose \<^verbatim>\<open>activityId\<close> is missing or falsy
  is passed over: the loop runs exactly as on the batch without these records, so that
  no detail is fetched and no file is written for them; on a batch of such records only,
  the world and the counter are left as they were.
\<close>

theorem c9_falsy_id_skipped:
  "sync_batch_full api acts tot w = sync_batch_full api (filter (\<lambda>a. \<not> skipped a) acts) tot w
   \<and> sync_batch_incremental api acts w
       = sync_batch_incremental api (filter (\<lambda>a. \<not> skipped a) acts) w
   \<and> (list_all skipped acts \<longrightarrow>
        sync_batch_full api acts tot w = (Returned tot, w)
        \<and> sync_batch_incremental api acts w = (Returned (), w))"
proof -
  have "list_all skipped acts \<Longrightarrow> filter (\<lambda>a. \<not> skipped a) acts = []"
    by (induction acts) auto
  then show ?thesis
    using sync_batch_full_filter[of api acts tot w] sync_batch_incremental_filter[of api acts w]
    by auto
qed

theorem c9_falsy_id_skipped_witness:
  "sync_batch_full flaky unidentified 0 empty_world = (Returned 0, empty_world)
   \<and> sync_batch_incremental flaky unidentified empty_world = (Returned (), empty_world)"
  using c9_falsy_id_skipped[of flaky unidentified 0 empty_world]
  by (simp add: unidentified_def dict_get_def)

section \<open>C7: errors of the MFA step\<close>

lemma login_attempt_mfa:
  "mfa_outcome env n = Some (Raised e) \<Longrightarrow> login_attempt env n w = mfa_failure e w"
  by (auto simp: mfa_outcome_def login_attempt_def split: result.splits prod.splits if_splits)

lemma init_loop_stop: "login_attempt env n w = Stop r \<Longrightarrow> init_loop env n w = Some r"
  by (subst init_loop.simps) simp

lemma init_loop_again:
  "login_attempt env n w = Again w' \<Longrightarrow> init_loop env n w = init_loop env (Suc n) w'"
  by (subst init_loop.simps) simp

lemma mfa_hiccup_0: "mfa_outcome mfa_hiccup 0 = Some (Raised (GarthException ''MFA error''))"
  by (simp add: mfa_outcome_def mfa_hiccup_def getenv_or_prompt_def)

lemma mfa_hiccup_1:
  "login_attempt mfa_hiccup (Suc 0) w = Stop (Returned True, print ''Authenticated successfully.'' w)"
  by (simp add: login_attempt_def mfa_hiccup_def getenv_or_prompt_def finish_login_def)

lemma mfa_limited_0:
  "mfa_outcome mfa_limited 0 = Some (Raised (GarthHTTPError ''429 Too Many Requests''))"
  by (simp add: mfa_outcome_def mfa_limited_def mfa_hiccup_def getenv_or_prompt_def)

text \<open>
  C7, as the code has it. When \<^verbatim>\<open>resume_login\<close> raises in pass \<open>n\<close> of the
  credential loop: an HTTP error with \<^verbatim>\<open>429\<close> in its text is reported and ends the
  process (\<^verbatim>\<open>sys.exit(1)\<close>); an HTTP error with \<^verbatim>\<open>401\<close> or \<^verbatim>\<open>403\<close>
  (and no \<^verbatim>\<open>429\<close>) is reported and the loop starts again from the top; any other
  HTTP error ends the process; an error of the session library that is no HTTP error is
  reported and the loop starts again from the top.
\<close>

theorem c7_mfa_errors:
  assumes "mfa_outcome env n = Some (Raised e)"
  shows "(e = GarthHTTPError m \<and> contains m ''429'' \<longrightarrow>
            init_loop env n w =
              Some (Raised (SystemExit 1), print ''Rate limited during MFA. Try again later.'' w))
       \<and> (e = GarthHTTPError m \<and> \<not> contains m ''429'' \<and> (contains m ''401'' \<or> contains m ''403'') \<longrightarrow>
            init_loop env n w = init_loop env (Suc n) (print ''Invalid MFA code. Try again.'' w))
       \<and> (e = GarthHTTPError m \<and> \<not> contains m ''429'' \<and> \<not> contains m ''401'' \<and> \<not> contains m ''403'' \<longrightarrow>
            init_loop env n w = Some (Raised (SystemExit 1), w))
       \<and> (e = GarthException m \<longrightarrow>
            init_loop env n w = init_loop env (Suc n) (print ''MFA failed. Try again.'' w))"
  using login_attempt_mfa[OF assms, of w]
  by (auto simp: init_loop_stop init_loop_again)

theorem c7_mfa_errors_witness:
  "init_loop mfa_limited 0 empty_world =
     Some (Raised (SystemExit 1), print ''Rate limited during MFA. Try again later.'' empty_world)
   \<and> init_loop mfa_hiccup 0 empty_world =
     Some (Returned True,
           print ''Authenticated successfully.'' (print ''MFA failed. Try again.'' empty_world))"
  using c7_mfa_errors[OF mfa_limited_0, of "''429 Too Many Requests''" empty_world]
        c7_mfa_errors[OF mfa_hiccup_0, of "''MFA error''" empty_world]
  by (simp add: init_loop_stop[OF mfa_hiccup_1])

text \<open>
  C7 as stated fails for an MFA error that is neither a rate limit nor an invalid code: in
  \<open>mfa_hiccup\<close> the process does not end, it asks again and authenticates.
\<close>

theorem c7_counterexample:
  "mfa_outcome mfa_hiccup 0 = Some (Raised (GarthException ''MFA error''))
   \<and> init_api mfa_hiccup empty_world =
       Some (Returned True,
             print ''Authenticated successfully.'' (print ''MFA failed. Try again.'' empty_world))"
  using init_loop_again[of mfa_hiccup 0 empty_world "print ''MFA failed. Try again.'' empty_world"]
        login_attempt_mfa[OF mfa_hiccup_0, of empty_world]
  by (simp add: mfa_hiccup_0 init_api_def init_loop_stop[OF mfa_hiccup_1])
     (simp add: mfa_hiccup_def)

section \<open>C8: the exit status\<close>

lemma rate_limit_error_simps [simp]:
  "rate_limit_error (GarminConnectTooManyRequestsError m) = True"
  "rate_limit_error (GarthHTTPError m) = contains m ''429''"
  "rate_limit_error (GarthException m) = False"
  "rate_limit_error (GarminConnectAuthenticationError m) = False"
  "rate_limit_error (GarminConnectConnectionError m) = False"
  "rate_limit_error (FileNotFoundError m) = False"
  "rate_limit_error (HTTPError m) = False"
  "rate_limit_error (OtherError m) = False"
  "rate_limit_error KeyboardInterrupt = False"
  "rate_limit_error (SystemExit n) = False"
  by (simp_all add: rate_limit_error_def)

lemma api_call_settled:
  "\<not> rate_limited (api w q) \<Longrightarrow> api_call api q w = settle (api w q) (invoke q w)"
  by (simp add: api_call_unrolled)

lemma run_of_main:
  "main env api clk w = Some (Returned (), w1) \<Longrightarrow> run env api clk w = Some (0, w1)"
  "main env api clk w = Some (Raised KeyboardInterrupt, w1) \<Longrightarrow>
     run env api clk w = Some (0, print ''Sync interrupted.'' (print [] w1))"
  "main env api clk w = Some (Raised (SystemExit n), w1) \<Longrightarrow> run env api clk w = Some (n, w1)"
  "main env api clk w = Some (Raised e, w1) \<Longrightarrow> is_Exception e \<Longrightarrow> run env api clk w = Some (1, w1)"
     apply (simp_all add: run_def)
  apply (cases e; simp)
  done

lemma main_of_init_api:
  "init_api env w = Some (Returned False, w1) \<Longrightarrow>
     main env api clk w = Some (Raised (SystemExit 1), print ''Failed to authenticate.'' w1)"
  "init_api env w = Some (Raised e, w1) \<Longrightarrow> main env api clk w = Some (Raised e, w1)"
  by (simp_all add: main_def)

lemma init_api_prompt_interrupt:
  assumes "stored_login env = Raised e" "stored_login_falls_through e"
    and "getenv_or_prompt (env_email env) (prompt env 0 ''Login email: '') = Raised KeyboardInterrupt"
  shows "init_api env w = Some (Returned False, w)"
proof -
  have "login_attempt env 0 w = Stop (Returned False, w)"
    using assms(3) by (simp add: login_attempt_def)
  then show ?thesis
    using assms(1,2) by (simp add: init_api_def init_loop_stop)
qed

lemma isoformat_739920: "isoformat 739920 = ''2026-10-31''"
  by code_simp

lemma sync_day_interrupted:
  assumes "files w = files synced_oct31"
  shows "\<exists>w1. sync_day interrupted ''2026-10-31'' w = (Raised KeyboardInterrupt, w1) \<and> calls w1 \<noteq> []"
proof -
  have "files synced_oct31 (day_dir ''2026-10-31'' @ ''summary.json'') = None"
    by (simp add: synced_oct31_def empty_world_def day_dir_def SYNC_STATE_FILE_def)
  with assms show ?thesis
    by (simp add: sync_day_def daily_calls_def api_call_settled interrupted_def path_exists_def)
qed

lemma sync_daily_data_interrupted:
  "files w = files synced_oct31 \<Longrightarrow>
   \<exists>w1. sync_daily_data interrupted 739920 739923 w = (Raised KeyboardInterrupt, w1) \<and> calls w1 \<noteq> []"
  apply (simp add: sync_daily_data_def)
  apply (subst sync_daily_loop.simps)
  apply (simp add: isoformat_739920 Let_def)
  using sync_day_interrupted[of
      "print (''Syncing daily data: 2026-10-31... '' @ show_int 1 @ ''/'' @ show_int 4) w"]
  apply auto
  done

lemma main_interrupted:
  "\<exists>w1. main stored_tokens interrupted nov3 synced_oct31 = Some (Raised KeyboardInterrupt, w1)
        \<and> calls w1 \<noteq> []"
proof -
  have "\<exists>w1. sync_all interrupted nov3 True 739920 739923 w = Some (Raised KeyboardInterrupt, w1)
            \<and> calls w1 \<noteq> []"
    if "files w = files synced_oct31" for w
    using sync_daily_data_interrupted[OF that] by (auto simp: sync_all_def)
  then show ?thesis
    by (simp add: main_def init_api_stored_tokens load_synced_oct31 nov3_def)
qed

lemma init_api_mfa_limited:
  "init_api mfa_limited empty_world =
     Some (Raised (SystemExit 1), print ''Rate limited during MFA. Try again later.'' empty_world)"
proof -
  have "login_attempt mfa_limited 0 empty_world =
          Stop (Raised (SystemExit 1), print ''Rate limited during MFA. Try again later.'' empty_world)"
    using login_attempt_mfa[OF mfa_limited_0, of empty_world] by simp
  then have "init_loop mfa_limited 0 empty_world =
          Some (Raised (SystemExit 1), print ''Rate limited during MFA. Try again later.'' empty_world)"
    by (rule init_loop_stop)
  moreover have "init_api mfa_limited empty_world = init_loop mfa_limited 0 empty_world"
    by (simp add: init_api_def mfa_limited_def mfa_hiccup_def)
  ultimately show ?thesis by simp
qed

text \<open>An interrupt in any pass of the credential loop ends \<^verbatim>\<open>init_api\<close> without a client.\<close>

lemma login_attempt_interrupted:
  assumes "attempt_interrupted env n"
  shows "login_attempt env n w = Stop (Returned False, w)"
proof (cases "getenv_or_prompt (env_email env) (prompt env n ''Login email: '')")
  case (Raised e)
  then show ?thesis using assms by (simp add: attempt_interrupted_def login_attempt_def)
next
  case email: (Returned email)
  show ?thesis
  proof (cases "getenv_or_prompt (env_password env) (prompt env n ''Enter password: '')")
    case (Raised e)
    then show ?thesis using assms email by (simp add: attempt_interrupted_def login_attempt_def)
  next
    case password: (Returned password)
    show ?thesis
    proof (cases "login env n email password")
      case (Raised e)
      then show ?thesis
        using assms email password by (simp add: attempt_interrupted_def login_attempt_def)
    next
      case (Returned rr)
      obtain result1 result2 where rr: "rr = (result1, result2)" by (cases rr)
      note l = Returned[unfolded rr]
      have fin: "finish_login env n w = Stop (Returned False, w)"
        if "dump_tokens env n = Raised KeyboardInterrupt"
        using that by (simp add: finish_login_def)
      show ?thesis
      proof (cases "result1 = JStr ''needs_mfa''")
        case False
        then show ?thesis
          using assms email password l fin by (simp add: attempt_interrupted_def login_attempt_def)
      next
        case True
        show ?thesis
        proof (cases "prompt env n ''Enter MFA code: ''")
          case (Raised e)
          then show ?thesis
            using assms email password l True by (simp add: attempt_interrupted_def login_attempt_def)
        next
          case code: (Returned mfa_code)
          show ?thesis
          proof (cases "resume_login env n result2 mfa_code")
            case (Raised e)
            then show ?thesis
              using assms email password l True code
              by (simp add: attempt_interrupted_def login_attempt_def)
          next
            case (Returned u)
            then show ?thesis
              using assms email password l True code fin
              by (simp add: attempt_interrupted_def login_attempt_def)
          qed
        qed
      qed
    qed
  qed
qed

lemma reach_init_loop: "reach env n w = Some wn \<Longrightarrow> init_loop env 0 w = init_loop env n wn"
proof (induction n arbitrary: wn)
  case 0
  then show ?case by simp
next
  case (Suc n)
  then obtain w' where r: "reach env n w = Some w'" and a: "login_attempt env n w' = Again wn"
    by (auto split: option.splits iteration.splits)
  from Suc.IH[OF r] init_loop_again[OF a] show ?case by simp
qed

lemma init_api_loop_interrupt:
  assumes "stored_login env = Raised e" "stored_login_falls_through e"
    and "reach env n w = Some wn" "attempt_interrupted env n"
  shows "init_api env w = Some (Returned False, wn)"
  using assms reach_init_loop[OF assms(3)]
    init_loop_stop[OF login_attempt_interrupted[OF assms(4), of wn]]
  by (simp add: init_api_def)

lemma init_api_stored_interrupt:
  "stored_login env = Raised KeyboardInterrupt \<Longrightarrow>
   init_api env w = Some (Raised KeyboardInterrupt, w)"
  by (simp add: init_api_def)

text \<open>What the exit status tells about \<^verbatim>\<open>main\<close>.\<close>

lemma run_code_converse:
  assumes "run env api clk w = Some (c, w')"
  shows "main env api clk w = Some (Returned (), w') \<and> c = 0
       \<or> (\<exists>w1. main env api clk w = Some (Raised KeyboardInterrupt, w1) \<and> c = 0
              \<and> w' = print ''Sync interrupted.'' (print [] w1))
       \<or> main env api clk w = Some (Raised (SystemExit c), w')
       \<or> (\<exists>e'. is_Exception e' \<and> main env api clk w = Some (Raised e', w') \<and> c = 1)"
proof (cases "main env api clk w")
  case None
  then show ?thesis using assms by (simp add: run_def)
next
  case (Some rw)
  obtain r w1 where rw: "rw = (r, w1)" by (cases rw)
  show ?thesis
  proof (cases r)
    case (Returned u)
    then show ?thesis using assms Some rw by (simp add: run_def)
  next
    case (Raised e)
    then show ?thesis using assms Some rw by (cases e) (auto simp: run_def)
  qed
qed

lemma main_exit_converse:
  assumes "main env api clk w = Some (Raised (SystemExit c), w')"
  shows "(\<exists>w1. init_api env w = Some (Returned False, w1) \<and> c = 1
              \<and> w' = print ''Failed to authenticate.'' w1)
       \<or> init_api env w = Some (Raised (SystemExit c), w')
       \<or> (\<exists>w1. init_api env w = Some (Returned True, w1))"
proof (cases "init_api env w")
  case None
  then show ?thesis using assms by (simp add: main_def)
next
  case (Some rw)
  obtain r w1 where rw: "rw = (r, w1)" by (cases rw)
  show ?thesis
  proof (cases r)
    case (Returned client)
    then show ?thesis using assms Some rw by (cases client) (auto simp: main_def)
  next
    case (Raised e)
    then show ?thesis using assms Some rw by (simp add: main_def)
  qed
qed

text \<open>
  A remote that is interrupted from some invocation on: every stage passes the interrupt
  on, or ends without having invoked the remote after that point.
\<close>

lemma cut_off_refl [simp]: "cut_off k w r w"
  by (simp add: cut_off_def)

lemma cut_off_simps [simp]:
  "cut_off k w r (print s w') = cut_off k w r w'"
  "cut_off k w r (sleep n w') = cut_off k w r w'"
  "cut_off k w r (save_json p d w') = cut_off k w r w'"
  "cut_off k (print s w) r w' = cut_off k w r w'"
  "cut_off k (sleep n w) r w' = cut_off k w r w'"
  "cut_off k (save_json p d w) r w' = cut_off k w r w'"
  by (simp_all add: cut_off_def)

lemma cut_off_trans:
  "cut_off k w (Returned x) w1 \<Longrightarrow> cut_off k w1 r w2 \<Longrightarrow> cut_off k w r w2"
  by (auto simp: cut_off_def)

lemma cut_off_Raised:
  "cut_off k w (Returned x) w1 \<Longrightarrow> cut_off k w (Raised e) w1"
  by (auto simp: cut_off_def)

lemma cut_off_Returned:
  "cut_off k w (Returned x) w1 \<Longrightarrow> cut_off k w (Returned y) w1"
  by (auto simp: cut_off_def)

lemma dead_settle:
  assumes "dead_from api k" "k \<le> length (calls w)"
  shows "\<not> rate_limited (api w q)" "settle (api w q) w' = (Raised KeyboardInterrupt, w')"
  using assms by (simp_all add: dead_from_def)

lemma cut_off_api_call:
  assumes "dead_from api k" "api_call api q w = (r, w')"
  shows "cut_off k w r w'"
proof -
  let ?w1 = "backoff q 1 w" and ?w2 = "backoff q 2 (backoff q 1 w)"
  have alive: "length (calls (snd (settle x (invoke q v)))) \<le> k" if "length (calls v) < k" for x v
    using that by simp
  have step: "cut_off k w (fst (settle (api v q) (invoke q v))) (snd (settle (api v q) (invoke q v)))"
    for v
  proof (cases "k \<le> length (calls v)")
    case True
    then show ?thesis using dead_settle(2)[OF assms(1) True] by (simp add: cut_off_def)
  next
    case False
    then show ?thesis using alive[of v] by (simp add: cut_off_def)
  qed
  have lim: "length (calls v) < k" if "rate_limited (api v q)" for v
    using dead_settle(1)[OF assms(1), of v q] that by (cases "k \<le> length (calls v)") auto
  show ?thesis
  proof (cases "rate_limited (api w q)")
    case False
    then show ?thesis using assms(2) step[of w] by (auto simp: api_call_unrolled)
  next
    case r1: True
    show ?thesis
    proof (cases "rate_limited (api ?w1 q)")
      case False
      then show ?thesis using assms(2) r1 step[of ?w1] by (auto simp: api_call_unrolled)
    next
      case r2: True
      show ?thesis
      proof (cases "rate_limited (api ?w2 q)")
        case False
        then show ?thesis using assms(2) r1 r2 step[of ?w2] by (auto simp: api_call_unrolled)
      next
        case True
        have "length (calls ?w2) < k" using lim[OF True] .
        then show ?thesis using assms(2) r1 r2 True by (auto simp: api_call_unrolled cut_off_def)
      qed
    qed
  qed
qed

lemma cut_off_step:
  assumes "dead_from api k" "cut_off k w0 (Returned x) w" "api_call api q w = (r, w')"
  shows "cut_off k w0 r w'"
  using cut_off_trans[OF assms(2) cut_off_api_call[OF assms(1,3)]] .

lemma sync_day_cases:
  "sync_day_calls api ds daily_calls w = (Raised e, w1) \<Longrightarrow> sync_day api ds w = (Raised e, w1)"
  "sync_day_calls api ds daily_calls w = (Returned u, w1) \<Longrightarrow>
     path_exists (day_dir ds @ ''body_battery.json'') w1 \<Longrightarrow> sync_day api ds w = (Returned (), w1)"
  "sync_day_calls api ds daily_calls w = (Returned u, w1) \<Longrightarrow>
     \<not> path_exists (day_dir ds @ ''body_battery.json'') w1 \<Longrightarrow>
     api_call api (Request ''get_body_battery'' [JStr ds, JStr ds]) w1 = (Raised e, w2) \<Longrightarrow>
     sync_day api ds w = (Raised e, w2)"
  "sync_day_calls api ds daily_calls w = (Returned u, w1) \<Longrightarrow>
     \<not> path_exists (day_dir ds @ ''body_battery.json'') w1 \<Longrightarrow>
     api_call api (Request ''get_body_battery'' [JStr ds, JStr ds]) w1 = (Returned data, w2) \<Longrightarrow>
     sync_day api ds w =
       (Returned (),
        sleep API_DELAY
          (if data \<noteq> JNull then save_json (day_dir ds @ ''body_battery.json'') data w2 else w2))"
  by (simp_all add: sync_day_def)

lemma sync_daily_loop_step:
  "current \<le> end \<Longrightarrow>
   sync_day api (isoformat current)
     (print (''Syncing daily data: '' @ isoformat current @ ''... '' @ show_int (i + 1) @ ''/''
               @ show_int days) w) = (Returned u, w1) \<Longrightarrow>
   sync_daily_loop api current end i days w = sync_daily_loop api (current + 1) end (i + 1) days w1"
  "current \<le> end \<Longrightarrow>
   sync_day api (isoformat current)
     (print (''Syncing daily data: '' @ isoformat current @ ''... '' @ show_int (i + 1) @ ''/''
               @ show_int days) w) = (Raised e, w1) \<Longrightarrow>
   sync_daily_loop api current end i days w = (Raised e, w1)"
  "\<not> current \<le> end \<Longrightarrow> sync_daily_loop api current end i days w = (Returned (), w)"
  by (subst sync_daily_loop.simps, simp add: Let_def)+

lemma cut_off_sync_day_calls:
  assumes "dead_from api k" "cut_off k w0 (Returned ()) w" "sync_day_calls api ds cs w = (r, w')"
  shows "cut_off k w0 r w'"
  using assms(2,3)
proof (induction cs arbitrary: w)
  case Nil
  then show ?case by (auto intro: cut_off_Returned)
next
  case (Cons c cs)
  obtain fn m where c: "c = (fn, m)" by (cases c)
  show ?case
  proof (cases "path_exists (day_dir ds @ fn) w")
    case True
    then show ?thesis using Cons.IH[OF Cons.prems(1)] Cons.prems(2) c by simp
  next
    case False
    obtain r1 w1 where a: "api_call api (Request m [JStr ds]) w = (r1, w1)"
      by (cases "api_call api (Request m [JStr ds]) w")
    note s = cut_off_step[OF assms(1) Cons.prems(1) a]
    show ?thesis
    proof (cases r1)
      case (Raised e)
      then show ?thesis using False a c Cons.prems(2) s by (auto simp: cut_off_def)
    next
      case (Returned data)
      let ?w2 = "sleep API_DELAY (if data \<noteq> JNull then save_json (day_dir ds @ fn) data w1 else w1)"
      have "cut_off k w0 (Returned ()) ?w2" using s Returned by (auto intro: cut_off_Returned)
      moreover have "sync_day_calls api ds cs ?w2 = (r, w')"
        using False a c Returned Cons.prems(2) by simp
      ultimately show ?thesis by (rule Cons.IH)
    qed
  qed
qed

lemma cut_off_sync_day:
  assumes "dead_from api k" "cut_off k w0 (Returned ()) w" "sync_day api ds w = (r, w')"
  shows "cut_off k w0 r w'"
proof -
  let ?p = "day_dir ds @ ''body_battery.json''"
  let ?q = "Request ''get_body_battery'' [JStr ds, JStr ds]"
  obtain r1 w1 where a: "sync_day_calls api ds daily_calls w = (r1, w1)"
    by (cases "sync_day_calls api ds daily_calls w")
  note s1 = cut_off_sync_day_calls[OF assms(1,2) a]
  show ?thesis
  proof (cases r1)
    case (Raised e)
    then show ?thesis using sync_day_cases(1)[OF a[unfolded Raised]] assms(3) s1 by (auto simp: cut_off_def)
  next
    case (Returned u)
    note a' = a[unfolded Returned]
    show ?thesis
    proof (cases "path_exists ?p w1")
      case True
      then show ?thesis using sync_day_cases(2)[OF a' True] assms(3) s1 Returned by auto
    next
      case False
      obtain r2 w2 where b: "api_call api ?q w1 = (r2, w2)" by (cases "api_call api ?q w1")
      have c: "cut_off k w0 (Returned ()) w1" using s1 Returned by (auto intro: cut_off_Returned)
      note s2 = cut_off_step[OF assms(1) c b]
      show ?thesis
      proof (cases r2)
        case (Raised e)
        then show ?thesis using sync_day_cases(3)[OF a' False b[unfolded Raised]] assms(3) s2 by (auto simp: cut_off_def)
      next
        case r2: (Returned data)
        show ?thesis
          using sync_day_cases(4)[OF a' False b[unfolded r2]] assms(3) s2 r2
          by (auto intro: cut_off_Returned)
      qed
    qed
  qed
qed

lemma cut_off_sync_daily_loop:
  assumes "dead_from api k" "cut_off k w0 (Returned ()) w"
    "sync_daily_loop api current end i days w = (r, w')"
  shows "cut_off k w0 r w'"
  using assms
proof (induction api current "end" i days w rule: sync_daily_loop.induct)
  case (1 api current "end" i days w)
  show ?case
  proof (cases "current \<le> end")
    case False
    then show ?thesis using sync_daily_loop_step(3)[OF False] "1.prems"(2,3)
      by (auto intro: cut_off_Returned)
  next
    case True
    let ?w0 = "print (''Syncing daily data: '' @ isoformat current @ ''... '' @ show_int (i + 1) @ ''/''
               @ show_int days) w"
    obtain r1 w1 where a: "sync_day api (isoformat current) ?w0 = (r1, w1)"
      by (cases "sync_day api (isoformat current) ?w0")
    have "cut_off k w0 (Returned ()) ?w0" using "1.prems"(2) by simp
    note s = cut_off_sync_day[OF "1.prems"(1) this a]
    show ?thesis
    proof (cases r1)
      case (Raised e)
      then show ?thesis using sync_daily_loop_step(2)[OF True a[unfolded Raised]] "1.prems"(3) s by (auto simp: cut_off_def)
    next
      case (Returned u)
      have run: "sync_daily_loop api (current + 1) end (i + 1) days w1 = (r, w')"
        using sync_daily_loop_step(1)[OF True a[unfolded Returned]] "1.prems"(3) by simp
      have c: "cut_off k w0 (Returned ()) w1" using s Returned by (auto intro: cut_off_Returned)
      from "1.IH"[OF True refl refl a[symmetric] Returned "1.prems"(1) c run] show ?thesis .
    qed
  qed
qed

lemma cut_off_sync_daily_data:
  assumes "dead_from api k" "cut_off k w0 (Returned ()) w" "sync_daily_data api s e w = (r, w')"
  shows "cut_off k w0 r w'"
  using cut_off_sync_daily_loop[OF assms(1,2)] assms(3) by (simp add: sync_daily_data_def)

lemma cut_off_sync_batch_full:
  assumes "dead_from api k" "cut_off k w0 (Returned ()) w" "sync_batch_full api acts tot w = (r, w')"
  shows "cut_off k w0 r w'"
  using assms(2,3)
proof (induction acts arbitrary: tot w)
  case Nil
  then show ?case by (auto simp: cut_off_def)
next
  case (Cons a acts)
  show ?case
  proof (cases "py_get a ''activityId''")
    case (Raised e)
    then show ?thesis using Cons.prems by (auto simp: cut_off_def)
  next
    case (Returned aid)
    show ?thesis
    proof (cases "truthy aid \<and> \<not> path_exists (activity_path aid) w")
      case False
      then show ?thesis
        using Cons.IH[OF Cons.prems(1)] Cons.prems(2) Returned by (auto split: if_splits)
    next
      case True
      obtain r1 w1 where c: "api_call api (get_activity aid) w = (r1, w1)"
        by (cases "api_call api (get_activity aid) w")
      note s = cut_off_step[OF assms(1) Cons.prems(1) c]
      show ?thesis
      proof (cases r1)
        case (Raised e)
        then show ?thesis using True Returned c Cons.prems(2) s by (auto simp: cut_off_def)
      next
        case d: (Returned detail)
        let ?w2 = "sleep API_DELAY (print (''  Activity '' @ py_str aid @ '' ('' @ show_nat (tot + 1) @ '')'')
                     (if detail \<noteq> JNull then save_json (activity_path aid) detail w1
                      else save_json (activity_path aid) a w1))"
        have "cut_off k w0 (Returned ()) ?w2" using s d by (auto simp: cut_off_def)
        moreover have "sync_batch_full api acts (tot + 1) ?w2 = (r, w')"
          using True Returned c d Cons.prems(2) by (simp add: Let_def)
        ultimately show ?thesis by (rule Cons.IH)
      qed
    qed
  qed
qed

lemma cut_off_sync_batch_incremental:
  assumes "dead_from api k" "cut_off k w0 (Returned ()) w" "sync_batch_incremental api acts w = (r, w')"
  shows "cut_off k w0 r w'"
  using assms(2,3)
proof (induction acts arbitrary: w)
  case Nil
  then show ?case by (auto simp: cut_off_def)
next
  case (Cons a acts)
  show ?case
  proof (cases "py_get a ''activityId''")
    case (Raised e)
    then show ?thesis using Cons.prems by (auto simp: cut_off_def)
  next
    case (Returned aid)
    show ?thesis
    proof (cases "truthy aid \<and> \<not> path_exists (activity_path aid) w")
      case False
      then show ?thesis
        using Cons.IH[OF Cons.prems(1)] Cons.prems(2) Returned by (auto split: if_splits)
    next
      case True
      obtain r1 w1 where c: "api_call api (get_activity aid) w = (r1, w1)"
        by (cases "api_call api (get_activity aid) w")
      note s = cut_off_step[OF assms(1) Cons.prems(1) c]
      show ?thesis
      proof (cases r1)
        case (Raised e)
        then show ?thesis using True Returned c Cons.prems(2) s by (auto simp: cut_off_def)
      next
        case d: (Returned detail)
        let ?w2 = "sleep API_DELAY (print (''  Activity '' @ py_str aid)
                     (if detail \<noteq> JNull then save_json (activity_path aid) detail w1
                      else save_json (activity_path aid) a w1))"
        have "cut_off k w0 (Returned ()) ?w2" using s d by (auto simp: cut_off_def)
        moreover have "sync_batch_incremental api acts ?w2 = (r, w')"
          using True Returned c d Cons.prems(2) by (simp add: Let_def)
        ultimately show ?thesis by (rule Cons.IH)
      qed
    qed
  qed
qed

lemma cut_off_sync_activities_incremental:
  assumes "dead_from api k" "cut_off k w0 (Returned ()) w"
    "sync_activities_incremental api s e w = (r, w')"
  shows "cut_off k w0 r w'"
proof -
  let ?w0 = "print (''Syncing activities from '' @ isoformat s @ '' to '' @ isoformat e @ ''...'') w"
  obtain r1 w1 where a: "api_call api (get_activities_by_date s e) ?w0 = (r1, w1)"
    by (cases "api_call api (get_activities_by_date s e) ?w0")
  have "cut_off k w0 (Returned ()) ?w0" using assms(2) by simp
  note s1 = cut_off_step[OF assms(1) this a]
  show ?thesis
  proof (cases r1)
    case (Raised x)
    then show ?thesis using a assms(3) s1 by (auto simp: sync_activities_incremental_def cut_off_def)
  next
    case (Returned activities)
    have c: "cut_off k w0 (Returned ()) w1" using s1 Returned by (auto simp: cut_off_def)
    show ?thesis
    proof (cases "truthy activities")
      case False
      then show ?thesis
        using a assms(3) c Returned by (auto simp: sync_activities_incremental_def cut_off_def)
    next
      case True
      show ?thesis
      proof (cases "py_iter activities")
        case (Raised x)
        then show ?thesis
          using a assms(3) c Returned True by (auto simp: sync_activities_incremental_def cut_off_def)
      next
        case acts: (Returned acts)
        have "sync_batch_incremental api acts w1 = (r, w')"
          using a assms(3) Returned True acts by (simp add: sync_activities_incremental_def)
        from cut_off_sync_batch_incremental[OF assms(1) c this] show ?thesis .
      qed
    qed
  qed
qed

lemma cut_off_sync_page:
  assumes "dead_from api k" "cut_off k w0 (Returned ()) w"
  shows "sync_page api s l t w = Stop (r, w') \<Longrightarrow> cut_off k w0 r w'"
    and "sync_page api s l t w = Again (t', w') \<Longrightarrow> cut_off k w0 (Returned ()) w'"
proof -
  let ?q = "Request ''get_activities'' [JInt s, JInt l]"
  obtain r1 w1 where a: "api_call api ?q w = (r1, w1)" by (cases "api_call api ?q w")
  note s1 = cut_off_step[OF assms(1,2) a]
  have both: "(sync_page api s l t w = Stop (r, w') \<longrightarrow> cut_off k w0 r w') \<and>
              (sync_page api s l t w = Again (t', w') \<longrightarrow> cut_off k w0 (Returned ()) w')"
  proof (cases r1)
    case (Raised x)
    then show ?thesis using a s1 by (auto simp: sync_page_def cut_off_def)
  next
    case (Returned batch)
    have c: "cut_off k w0 (Returned ()) w1" using s1 Returned by (auto simp: cut_off_def)
    show ?thesis
    proof (cases "truthy batch")
      case False
      then show ?thesis using a c Returned by (auto simp: sync_page_def cut_off_def)
    next
      case True
      show ?thesis
      proof (cases "py_iter batch")
        case (Raised x)
        then show ?thesis using a c Returned True by (auto simp: sync_page_def cut_off_def)
      next
        case acts: (Returned acts)
        obtain r2 w2 where b: "sync_batch_full api acts t w1 = (r2, w2)"
          by (cases "sync_batch_full api acts t w1")
        note s2 = cut_off_sync_batch_full[OF assms(1) c b]
        show ?thesis
        proof (cases r2)
          case (Raised x)
          then show ?thesis
            using a b s2 Returned True acts by (auto simp: sync_page_def cut_off_def)
        next
          case t2: (Returned t2)
          then show ?thesis
            using a b s2 Returned True acts
            by (cases "py_len batch") (auto simp: sync_page_def cut_off_def)
        qed
      qed
    qed
  qed
  show "sync_page api s l t w = Stop (r, w') \<Longrightarrow> cut_off k w0 r w'" using both by simp
  show "sync_page api s l t w = Again (t', w') \<Longrightarrow> cut_off k w0 (Returned ()) w'" using both by simp
qed

lemma cut_off_sync_full_loop:
  assumes "sync_full_loop api s l t w = Some y"
  shows "dead_from api k \<longrightarrow> cut_off k w0 (Returned ()) w \<longrightarrow> cut_off k w0 (fst y) (snd y)"
proof (rule sync_full_loop.raw_induct[where
         P = "\<lambda>api s l t w y. dead_from api k \<longrightarrow> cut_off k w0 (Returned ()) w
                \<longrightarrow> cut_off k w0 (fst y) (snd y)", OF _ assms])
  fix loop api s l t w y
  assume IH: "\<And>api s l t w y. loop api s l t w = Some y \<Longrightarrow>
                dead_from api k \<longrightarrow> cut_off k w0 (Returned ()) w \<longrightarrow> cut_off k w0 (fst y) (snd y)"
    and step: "(case sync_page api s l t w of Stop r \<Rightarrow> Some r
               | Again (tot', w') \<Rightarrow> loop api (s + l) l tot' w') = Some y"
  show "dead_from api k \<longrightarrow> cut_off k w0 (Returned ()) w \<longrightarrow> cut_off k w0 (fst y) (snd y)"
  proof (intro impI)
    assume d: "dead_from api k" and c: "cut_off k w0 (Returned ()) w"
    show "cut_off k w0 (fst y) (snd y)"
    proof (cases "sync_page api s l t w")
      case (Stop r)
      then have "y = r" using step by simp
      then show ?thesis using cut_off_sync_page(1)[OF d c, of s l t "fst r" "snd r"] Stop by simp
    next
      case (Again p)
      obtain t' w' where p: "p = (t', w')" by (cases p)
      have "loop api (s + l) l t' w' = Some y" using step Again p by simp
      moreover have "cut_off k w0 (Returned ()) w'"
        using cut_off_sync_page(2)[OF d c, of s l t t' w'] Again p by simp
      ultimately show ?thesis using IH d by blast
    qed
  qed
qed

lemma cut_off_sync_activities_full:
  assumes "dead_from api k" "cut_off k w0 (Returned ()) w"
    "sync_activities_full api w = Some (r, w')"
  shows "cut_off k w0 r w'"
proof -
  let ?w0 = "print ''Syncing all activities (paginated)...'' w"
  obtain y where y: "sync_full_loop api 0 100 0 ?w0 = Some y"
    using assms(3) by (cases "sync_full_loop api 0 100 0 ?w0") (simp_all add: sync_activities_full_def)
  have "cut_off k w0 (Returned ()) ?w0" using assms(2) by simp
  then have "cut_off k w0 (fst y) (snd y)" using cut_off_sync_full_loop[OF y] assms(1) by blast
  then show ?thesis
    using assms(3) y by (cases y; cases "fst y") (auto simp: sync_activities_full_def cut_off_def)
qed

lemma cut_off_fetch_and_save:
  assumes "dead_from api k" "cut_off k w0 (Returned ()) w" "fetch_and_save api q p w = (r, w')"
  shows "cut_off k w0 r w'"
proof -
  obtain r1 w1 where a: "api_call api q w = (r1, w1)" by (cases "api_call api q w")
  note s = cut_off_step[OF assms(1,2) a]
  show ?thesis
    using a s assms(3) by (cases r1) (auto simp: fetch_and_save_def cut_off_def split: if_splits)
qed

lemma cut_off_two_fetches:
  assumes "dead_from api k" "cut_off k w0 (Returned ()) w"
    "(case fetch_and_save api q1 p1 w of
        (Raised e, w1) \<Rightarrow> (Raised e, w1)
      | (Returned u, w1) \<Rightarrow> fetch_and_save api q2 p2 (sleep API_DELAY w1)) = (r, w')"
  shows "cut_off k w0 r w'"
proof -
  obtain r1 w1 where a: "fetch_and_save api q1 p1 w = (r1, w1)"
    by (cases "fetch_and_save api q1 p1 w")
  note s = cut_off_fetch_and_save[OF assms(1,2) a]
  show ?thesis
  proof (cases r1)
    case (Raised e)
    then show ?thesis using a s assms(3) by (auto simp: cut_off_def)
  next
    case (Returned u)
    have "cut_off k w0 (Returned ()) (sleep API_DELAY w1)" using s Returned by (auto simp: cut_off_def)
    moreover have "fetch_and_save api q2 p2 (sleep API_DELAY w1) = (r, w')"
      using a Returned assms(3) by simp
    ultimately show ?thesis by (rule cut_off_fetch_and_save[OF assms(1)])
  qed
qed

lemma cut_off_sync_body_composition:
  assumes "dead_from api k" "cut_off k w0 (Returned ()) w"
    "sync_body_composition api s e w = (r, w')"
  shows "cut_off k w0 r w'"
proof -
  have "cut_off k w0 (Returned ()) (print ''Syncing body composition...'' w)"
    using assms(2) by simp
  from cut_off_two_fetches[OF assms(1) this assms(3)[unfolded sync_body_composition_def]]
  show ?thesis .
qed

lemma cut_off_sync_weekly:
  assumes "dead_from api k" "cut_off k w0 (Returned ()) w" "sync_weekly api clk w = (r, w')"
  shows "cut_off k w0 r w'"
proof -
  have "cut_off k w0 (Returned ()) (print ''Syncing weekly trends...'' w)"
    using assms(2) by simp
  from cut_off_two_fetches[OF assms(1) this assms(3)[unfolded sync_weekly_def Let_def]]
  show ?thesis .
qed

lemma cut_off_sync_profile:
  assumes "dead_from api k" "cut_off k w0 (Returned ()) w" "sync_profile api w = (r, w')"
  shows "cut_off k w0 r w'"
proof -
  have "cut_off k w0 (Returned ()) (print ''Syncing profile...'' w)"
    using assms(2) by simp
  from cut_off_two_fetches[OF assms(1) this assms(3)[unfolded sync_profile_def]]
  show ?thesis .
qed

lemma cut_off_sync_personal_records:
  assumes "dead_from api k" "cut_off k w0 (Returned ()) w" "sync_personal_records api w = (r, w')"
  shows "cut_off k w0 r w'"
proof -
  have "cut_off k w0 (Returned ()) (print ''Syncing personal records...'' w)"
    using assms(2) by simp
  from cut_off_fetch_and_save[OF assms(1) this assms(3)[unfolded sync_personal_records_def]]
  show ?thesis .
qed

lemma cut_off_save_sync_state [simp]:
  "cut_off k w r (save_sync_state d w') = cut_off k w r w'"
  by (simp add: save_sync_state_def)

lemma cut_off_next:
  "cut_off k w0 (Returned u) w \<Longrightarrow> cut_off k w0 (Returned ()) (sleep API_DELAY w)"
  by (simp add: cut_off_def)

lemma cut_off_sync_rest:
  assumes "dead_from api k" "cut_off k w0 (Returned ()) w" "sync_rest api clk s e w = (r, w')"
  shows "cut_off k w0 r w'"
proof -
  obtain r3 w3 where a3: "sync_body_composition api s e w = (r3, w3)"
    by (cases "sync_body_composition api s e w")
  note s3 = cut_off_sync_body_composition[OF assms(1,2) a3]
  show ?thesis
  proof (cases r3)
    case (Raised x)
    then show ?thesis using a3 s3 assms(3) by (auto simp: sync_rest_def cut_off_def)
  next
    case r3: (Returned u3)
    obtain r4 w4 where a4: "sync_weekly api clk (sleep API_DELAY w3) = (r4, w4)"
      by (cases "sync_weekly api clk (sleep API_DELAY w3)")
    note s4 = cut_off_sync_weekly[OF assms(1) cut_off_next[OF s3[unfolded r3]] a4]
    show ?thesis
    proof (cases r4)
      case (Raised x)
      then show ?thesis using a3 r3 a4 s4 assms(3) by (auto simp: sync_rest_def cut_off_def)
    next
      case r4: (Returned u4)
      obtain r5 w5 where a5: "sync_profile api (sleep API_DELAY w4) = (r5, w5)"
        by (cases "sync_profile api (sleep API_DELAY w4)")
      note s5 = cut_off_sync_profile[OF assms(1) cut_off_next[OF s4[unfolded r4]] a5]
      show ?thesis
      proof (cases r5)
        case (Raised x)
        then show ?thesis using a3 r3 a4 r4 a5 s5 assms(3) by (auto simp: sync_rest_def cut_off_def)
      next
        case r5: (Returned u5)
        obtain r6 w6 where a6: "sync_personal_records api (sleep API_DELAY w5) = (r6, w6)"
          by (cases "sync_personal_records api (sleep API_DELAY w5)")
        note s6 = cut_off_sync_personal_records[OF assms(1) cut_off_next[OF s5[unfolded r5]] a6]
        show ?thesis
          using a3 r3 a4 r4 a5 r5 a6 s6 assms(3)
          by (cases r6) (auto simp: sync_rest_def cut_off_def save_sync_state_def)
      qed
    qed
  qed
qed

lemma cut_off_sync_all:
  assumes "dead_from api k" "cut_off k w0 (Returned ()) w"
    "sync_all api clk inc s e w = Some (r, w')"
  shows "cut_off k w0 r w'"
proof -
  obtain r1 w1 where a1: "sync_daily_data api s e w = (r1, w1)"
    by (cases "sync_daily_data api s e w")
  note s1 = cut_off_sync_daily_data[OF assms(1,2) a1]
  show ?thesis
  proof (cases r1)
    case (Raised x)
    then show ?thesis using a1 s1 assms(3) by (auto simp: sync_all_def cut_off_def)
  next
    case r1: (Returned u1)
    let ?acts = "if inc then Some (sync_activities_incremental api s e (sleep API_DELAY w1))
                 else sync_activities_full api (sleep API_DELAY w1)"
    obtain r2 w2 where a2: "?acts = Some (r2, w2)"
      using assms(3) a1 r1 by (cases ?acts) (auto simp: sync_all_def)
    have s2: "cut_off k w0 r2 w2"
    proof (cases inc)
      case True
      then have "sync_activities_incremental api s e (sleep API_DELAY w1) = (r2, w2)"
        using a2 by simp
      from cut_off_sync_activities_incremental[OF assms(1) cut_off_next[OF s1[unfolded r1]] this]
      show ?thesis .
    next
      case False
      then have "sync_activities_full api (sleep API_DELAY w1) = Some (r2, w2)"
        using a2 by simp
      from cut_off_sync_activities_full[OF assms(1) cut_off_next[OF s1[unfolded r1]] this]
      show ?thesis .
    qed
    show ?thesis
    proof (cases r2)
      case (Raised x)
      then show ?thesis using a1 r1 a2 s2 assms(3) by (auto simp: sync_all_def cut_off_def)
    next
      case r2: (Returned u2)
      have "sync_rest api clk s e (sleep API_DELAY w2) = (r, w')"
        using a1 r1 a2 r2 assms(3) by (simp add: sync_all_def)
      from cut_off_sync_rest[OF assms(1) cut_off_next[OF s2[unfolded r2]] this] show ?thesis .
    qed
  qed
qed

text \<open>From the authenticated session on.\<close>

lemma cut_off_main:
  assumes "dead_from api k" "init_api env w = Some (Returned True, wa)"
    "main env api clk w = Some (r, w1)"
  shows "cut_off k wa r w1"
proof (cases "load_sync_state wa")
  case (Raised x)
  then show ?thesis using assms(2,3) by (auto simp: main_def cut_off_def)
next
  case (Returned last_sync)
  show ?thesis
  proof (cases last_sync)
    case None
    let ?t = "clk wa"
    let ?w = "print (''Initial sync: '' @ isoformat (?t - HISTORY_DAYS) @ '' to ''
                   @ isoformat ?t @ '' ('' @ show_int HISTORY_DAYS @ '' days)'') wa"
    have "sync_all api clk False (?t - HISTORY_DAYS) ?t ?w = Some (r, w1)"
      using assms(2,3) Returned None by (simp add: main_def Let_def)
    moreover have "cut_off k wa (Returned ()) ?w" by simp
    ultimately show ?thesis using cut_off_sync_all[OF assms(1)] by blast
  next
    case (Some d)
    let ?t = "clk wa"
    let ?w = "print (''Incremental sync from '' @ isoformat d @ '' to '' @ isoformat ?t) wa"
    have "sync_all api clk True d ?t ?w = Some (r, w1)"
      using assms(2,3) Returned Some by (simp add: main_def Let_def)
    moreover have "cut_off k wa (Returned ()) ?w" by simp
    ultimately show ?thesis using cut_off_sync_all[OF assms(1)] by blast
  qed
qed

lemma main_sync_interrupted:
  assumes "dead_from api k" "init_api env w = Some (Returned True, wa)"
    "main env api clk w = Some (r, w1)" "k < length (calls w1)" "calls w1 \<noteq> calls wa"
  shows "r = Raised KeyboardInterrupt"
  using cut_off_main[OF assms(1,2,3)] assms(4,5) by (auto simp: cut_off_def)

lemma dead_from_interrupted: "dead_from interrupted 0"
  by (simp add: dead_from_def interrupted_def)

lemma password_interrupted_0:
  "login_attempt password_interrupted 0 w = Again (print ''Invalid credentials. Try again.'' w)"
  by (simp add: login_attempt_def password_interrupted_def getenv_or_prompt_def)

lemma password_interrupted_reach:
  "reach password_interrupted (Suc 0) w = Some (print ''Invalid credentials. Try again.'' w)"
  by (simp add: password_interrupted_0)

lemma password_interrupted_1: "attempt_interrupted password_interrupted (Suc 0)"
  by (simp add: attempt_interrupted_def password_interrupted_def getenv_or_prompt_def)

text \<open>
  C8, as the code has it. The exit status is 0 when \<^verbatim>\<open>main\<close> returns and when a
  \<open>KeyboardInterrupt\<close> comes out of \<^verbatim>\<open>main\<close> (the handler prints its message). It
  is 1 when \<^verbatim>\<open>init_api\<close> returns no client, after the message that authentication
  failed, and this is also what a manual interrupt at the first credential prompt leads
  to; it is 1 when the MFA step called \<^verbatim>\<open>sys.exit(1)\<close>; and it is 1 when an
  exception of class \<^verbatim>\<open>Exception\<close> comes out of \<^verbatim>\<open>main\<close> uncaught.

  Where an interrupt leads: in any pass \<open>n\<close> of the credential loop, at the e-mail or
  password prompt, in the login, at the MFA prompt, in \<^verbatim>\<open>resume_login\<close> or in the
  token dump, to status 1 after the message that authentication failed; in the login
  with the stored tokens, to status 0 with the handler's message; and during the sync,
  where a remote that raises \<open>KeyboardInterrupt\<close> from its \<open>(k + 1)\<close>-th invocation
  on and is invoked by the sync after that point gives status 0 with the handler's
  message.

  Conversely, a run that ends with status \<open>c\<close> is one of these: \<^verbatim>\<open>main\<close> returned
  (0); a \<open>KeyboardInterrupt\<close> came out of \<^verbatim>\<open>main\<close> (0); \<^verbatim>\<open>init_api\<close> returned
  no client (1); \<^verbatim>\<open>init_api\<close> raised \<open>SystemExit c\<close>; the sync, with a client,
  raised \<open>SystemExit c\<close>; or an exception of class \<^verbatim>\<open>Exception\<close> came out of
  \<^verbatim>\<open>main\<close> (1).
\<close>

theorem c8_exit_codes:
  "(main env api clk w = Some (Returned (), w1) \<longrightarrow> run env api clk w = Some (0, w1))
   \<and> (main env api clk w = Some (Raised KeyboardInterrupt, w1) \<longrightarrow>
        run env api clk w = Some (0, print ''Sync interrupted.'' (print [] w1)))
   \<and> (init_api env w = Some (Returned False, w1) \<longrightarrow>
        run env api clk w = Some (1, print ''Failed to authenticate.'' w1))
   \<and> (init_api env w = Some (Raised (SystemExit 1), w1) \<longrightarrow> run env api clk w = Some (1, w1))
   \<and> (stored_login env = Raised e \<and> stored_login_falls_through e
        \<and> getenv_or_prompt (env_email env) (prompt env 0 ''Login email: '') = Raised KeyboardInterrupt \<longrightarrow>
        run env api clk w = Some (1, print ''Failed to authenticate.'' w))
   \<and> (main env api clk w = Some (Raised e', w1) \<and> is_Exception e' \<longrightarrow>
        run env api clk w = Some (1, w1))
   \<and> (stored_login env = Raised e \<and> stored_login_falls_through e
        \<and> reach env n w = Some wn \<and> attempt_interrupted env n \<longrightarrow>
        run env api clk w = Some (1, print ''Failed to authenticate.'' wn))
   \<and> (stored_login env = Raised KeyboardInterrupt \<longrightarrow>
        run env api clk w = Some (0, print ''Sync interrupted.'' (print [] w)))
   \<and> (dead_from api k \<and> init_api env w = Some (Returned True, wa)
        \<and> main env api clk w = Some (r, w2) \<and> k < length (calls w2) \<and> calls w2 \<noteq> calls wa \<longrightarrow>
        run env api clk w = Some (0, print ''Sync interrupted.'' (print [] w2)))
   \<and> (run env api clk w = Some (c, w') \<longrightarrow>
        c = 0 \<and> main env api clk w = Some (Returned (), w')
        \<or> c = 0 \<and> (\<exists>w3. main env api clk w = Some (Raised KeyboardInterrupt, w3)
                        \<and> w' = print ''Sync interrupted.'' (print [] w3))
        \<or> c = 1 \<and> (\<exists>w3. init_api env w = Some (Returned False, w3)
                        \<and> w' = print ''Failed to authenticate.'' w3)
        \<or> init_api env w = Some (Raised (SystemExit c), w')
        \<or> (\<exists>w3. init_api env w = Some (Returned True, w3))
            \<and> main env api clk w = Some (Raised (SystemExit c), w')
        \<or> c = 1 \<and> (\<exists>x. is_Exception x \<and> main env api clk w = Some (Raised x, w')))"
proof -
  have a: "init_api env w = Some (Returned False, w1) \<Longrightarrow>
        run env api clk w = Some (1, print ''Failed to authenticate.'' w1)" for w1
    using run_of_main(3)[OF main_of_init_api(1)] .
  have b: "init_api env w = Some (Raised (SystemExit 1), w1) \<Longrightarrow> run env api clk w = Some (1, w1)"
    using run_of_main(3)[OF main_of_init_api(2)] .
  have c: "stored_login env = Raised e \<Longrightarrow> stored_login_falls_through e
        \<Longrightarrow> getenv_or_prompt (env_email env) (prompt env 0 ''Login email: '') = Raised KeyboardInterrupt \<Longrightarrow>
        run env api clk w = Some (1, print ''Failed to authenticate.'' w)"
    using a[OF init_api_prompt_interrupt] .
  have d: "stored_login env = Raised e \<Longrightarrow> stored_login_falls_through e
        \<Longrightarrow> reach env n w = Some wn \<Longrightarrow> attempt_interrupted env n \<Longrightarrow>
        run env api clk w = Some (1, print ''Failed to authenticate.'' wn)"
    using a[OF init_api_loop_interrupt] .
  have f: "stored_login env = Raised KeyboardInterrupt \<Longrightarrow>
        run env api clk w = Some (0, print ''Sync interrupted.'' (print [] w))"
    using run_of_main(2)[OF main_of_init_api(2)[OF init_api_stored_interrupt]] .
  have g: "dead_from api k \<Longrightarrow> init_api env w = Some (Returned True, wa)
        \<Longrightarrow> main env api clk w = Some (r, w2) \<Longrightarrow> k < length (calls w2) \<Longrightarrow> calls w2 \<noteq> calls wa \<Longrightarrow>
        run env api clk w = Some (0, print ''Sync interrupted.'' (print [] w2))"
    using run_of_main(2)[of env api clk w w2] main_sync_interrupted[of api k env w wa clk r w2]
    by simp
  have h: "c = 0 \<and> main env api clk w = Some (Returned (), w')
        \<or> c = 0 \<and> (\<exists>w3. main env api clk w = Some (Raised KeyboardInterrupt, w3)
                        \<and> w' = print ''Sync interrupted.'' (print [] w3))
        \<or> c = 1 \<and> (\<exists>w3. init_api env w = Some (Returned False, w3)
                        \<and> w' = print ''Failed to authenticate.'' w3)
        \<or> init_api env w = Some (Raised (SystemExit c), w')
        \<or> (\<exists>w3. init_api env w = Some (Returned True, w3))
            \<and> main env api clk w = Some (Raised (SystemExit c), w')
        \<or> c = 1 \<and> (\<exists>x. is_Exception x \<and> main env api clk w = Some (Raised x, w'))"
    if "run env api clk w = Some (c, w')"
    using run_code_converse[OF that] main_exit_converse[of env api clk w c w'] by blast
  show ?thesis
    using run_of_main(1,2,4)[of env api clk w] a b c d f g h by blast
qed

text \<open>
  An interrupt during the first remote call of the sync gives status 0; a rate limit at
  the MFA step gives status 1; an interrupt at the password prompt of the second pass
  gives status 1; an interrupt of the login with the stored tokens gives status 0.
\<close>

theorem c8_exit_codes_witness:
  "map_option fst (run stored_tokens interrupted nov3 synced_oct31) = Some 0
   \<and> run mfa_limited silent nov3 empty_world =
       Some (1, print ''Rate limited during MFA. Try again later.'' empty_world)
   \<and> run password_interrupted silent nov3 empty_world =
       Some (1, print ''Failed to authenticate.'' (print ''Invalid credentials. Try again.'' empty_world))
   \<and> run login_interrupted silent nov3 empty_world =
       Some (0, print ''Sync interrupted.'' (print [] empty_world))"
proof -
  let ?wa = "print ''Authenticated with stored tokens.'' synced_oct31"
  obtain w1 where m: "main stored_tokens interrupted nov3 synced_oct31 = Some (Raised KeyboardInterrupt, w1)"
    and n: "calls w1 \<noteq> []"
    using main_interrupted by blast
  have i: "init_api stored_tokens synced_oct31 = Some (Returned True, ?wa)"
    by (simp add: init_api_stored_tokens)
  have e: "calls ?wa = []" by (simp add: synced_oct31_def empty_world_def)
  have "dead_from interrupted 0 \<and> init_api stored_tokens synced_oct31 = Some (Returned True, ?wa)
        \<and> main stored_tokens interrupted nov3 synced_oct31 = Some (Raised KeyboardInterrupt, w1)
        \<and> 0 < length (calls w1) \<and> calls w1 \<noteq> calls ?wa \<longrightarrow>
        run stored_tokens interrupted nov3 synced_oct31 =
          Some (0, print ''Sync interrupted.'' (print [] w1))"
    using c8_exit_codes[of stored_tokens interrupted nov3 synced_oct31 w1 KeyboardInterrupt
            KeyboardInterrupt 0 w1 0 ?wa "Raised KeyboardInterrupt" w1 0 w1]
    by - (elim conjE, assumption)
  then have "run stored_tokens interrupted nov3 synced_oct31 =
          Some (0, print ''Sync interrupted.'' (print [] w1))"
    using dead_from_interrupted i m n e by simp
  then have 1: "map_option fst (run stored_tokens interrupted nov3 synced_oct31) = Some 0"
    by simp
  have "init_api mfa_limited empty_world =
          Some (Raised (SystemExit 1), print ''Rate limited during MFA. Try again later.'' empty_world)
        \<longrightarrow> run mfa_limited silent nov3 empty_world =
          Some (1, print ''Rate limited during MFA. Try again later.'' empty_world)"
    using c8_exit_codes[of mfa_limited silent nov3 empty_world
            "print ''Rate limited during MFA. Try again later.'' empty_world" KeyboardInterrupt
            KeyboardInterrupt 0 empty_world 0 empty_world "Returned ()" empty_world 0 empty_world]
    by - (elim conjE, assumption)
  then have 2: "run mfa_limited silent nov3 empty_world =
       Some (1, print ''Rate limited during MFA. Try again later.'' empty_world)"
    using init_api_mfa_limited by simp
  let ?e = "FileNotFoundError ''~/.garminconnect''"
  have "stored_login password_interrupted = Raised ?e \<and> stored_login_falls_through ?e
        \<and> reach password_interrupted (Suc 0) empty_world =
            Some (print ''Invalid credentials. Try again.'' empty_world)
        \<and> attempt_interrupted password_interrupted (Suc 0) \<longrightarrow>
        run password_interrupted silent nov3 empty_world =
          Some (1, print ''Failed to authenticate.''
                     (print ''Invalid credentials. Try again.'' empty_world))"
    using c8_exit_codes[of password_interrupted silent nov3 empty_world empty_world ?e
            KeyboardInterrupt "Suc 0" "print ''Invalid credentials. Try again.'' empty_world"
            0 empty_world "Returned ()" empty_world 0 empty_world]
    by - (elim conjE, assumption)
  moreover have "stored_login password_interrupted = Raised ?e"
    by (simp add: password_interrupted_def)
  ultimately have 3: "run password_interrupted silent nov3 empty_world =
       Some (1, print ''Failed to authenticate.'' (print ''Invalid credentials. Try again.'' empty_world))"
    using password_interrupted_reach[of empty_world] password_interrupted_1 by simp
  have "stored_login login_interrupted = Raised KeyboardInterrupt \<longrightarrow>
        run login_interrupted silent nov3 empty_world =
          Some (0, print ''Sync interrupted.'' (print [] empty_world))"
    using c8_exit_codes[of login_interrupted silent nov3 empty_world empty_world KeyboardInterrupt
            KeyboardInterrupt 0 empty_world 0 empty_world "Returned ()" empty_world 0 empty_world]
    by - (elim conjE, assumption)
  then have 4: "run login_interrupted silent nov3 empty_world =
       Some (0, print ''Sync interrupted.'' (print [] empty_world))"
    by (simp add: login_interrupted_def)
  show ?thesis using 1 2 3 4 by simp
qed

text \<open>
  C8 as stated fails for a run that the user interrupts at the first credential prompt:
  \<^verbatim>\<open>init_api\<close> returns no client and the status is 1.
\<close>

theorem c8_counterexample:
  "run prompt_interrupted silent nov3 empty_world =
     Some (1, print ''Failed to authenticate.'' empty_world)"
proof -
  have "init_api prompt_interrupted empty_world = Some (Returned False, empty_world)"
    by (rule init_api_prompt_interrupt[where e = "FileNotFoundError ''~/.garminconnect''"])
       (simp_all add: prompt_interrupted_def getenv_or_prompt_def)
  then show ?thesis
    using run_of_main(3) main_of_init_api(1) by blast
qed

section \<open>C4: the daily sync and its cache\<close>

lemma api_call_calls: "\<exists>k. calls (snd (api_call api q w)) = calls w @ replicate k q"
proof (cases "rate_limited (api w q)")
  case False
  then have "calls (snd (api_call api q w)) = calls w @ replicate 1 q"
    by (simp add: api_call_unrolled)
  then show ?thesis by blast
next
  case r1: True
  show ?thesis
  proof (cases "rate_limited (api (backoff q 1 w) q)")
    case False
    with r1 have "calls (snd (api_call api q w)) = calls w @ replicate 2 q"
      by (simp add: api_call_unrolled numeral_2_eq_2)
    then show ?thesis by blast
  next
    case r2: True
    have "calls (snd (api_call api q w)) = calls w @ replicate 3 q"
      using r1 r2 by (simp add: api_call_unrolled numeral_3_eq_3)
    then show ?thesis by blast
  qed
qed

lemma daily_invE:
  assumes "daily_inv A w0 w"
  obtains ws cs where
    "writes w = writes w0 @ ws" "calls w = calls w0 @ cs" "distinct (map fst ws)"
    "\<forall>p \<in> fst ` set ws. p \<in> A \<and> files w0 p = None"
    "dom (files w) = dom (files w0) \<union> fst ` set ws"
    "\<forall>q \<in> set cs. \<exists>p. request_path q = Some p \<and> files w0 p = None"
  using assms unfolding daily_inv_def by (elim exE conjE) (rule that; assumption)

lemma daily_inv_refl: "daily_inv A w w"
  by (simp add: daily_inv_def)

lemma daily_inv_print [simp]: "daily_inv A w0 (print s w) = daily_inv A w0 w"
  by (simp add: daily_inv_def)

lemma daily_inv_sleep [simp]: "daily_inv A w0 (sleep n w) = daily_inv A w0 w"
  by (simp add: daily_inv_def)

lemma daily_inv_dom: "daily_inv A w0 w \<Longrightarrow> dom (files w0) \<subseteq> dom (files w)"
  by (auto simp: daily_inv_def)

lemma daily_inv_absent: "daily_inv A w0 w \<Longrightarrow> files w p = None \<Longrightarrow> files w0 p = None"
  using daily_inv_dom[of A w0 w] by (cases "files w0 p") auto

lemma daily_inv_api_call:
  assumes "daily_inv A w0 w" "request_path q = Some p" "files w p = None"
  shows "daily_inv A w0 (snd (api_call api q w))"
proof -
  obtain k where k: "calls (snd (api_call api q w)) = calls w @ replicate k q"
    using api_call_calls by blast
  have p0: "files w0 p = None" using assms(1,3) by (rule daily_inv_absent)
  from assms(1) obtain ws cs where h:
    "writes w = writes w0 @ ws" "calls w = calls w0 @ cs" "distinct (map fst ws)"
    "\<forall>p \<in> fst ` set ws. p \<in> A \<and> files w0 p = None"
    "dom (files w) = dom (files w0) \<union> fst ` set ws"
    "\<forall>q \<in> set cs. \<exists>p. request_path q = Some p \<and> files w0 p = None"
    by (rule daily_invE)
  show ?thesis
    unfolding daily_inv_def
  proof (intro exI conjI)
    show "writes (snd (api_call api q w)) = writes w0 @ ws" using h(1) by simp
    show "calls (snd (api_call api q w)) = calls w0 @ (cs @ replicate k q)" using h(2) k by simp
    show "distinct (map fst ws)" by (rule h(3))
    show "\<forall>p \<in> fst ` set ws. p \<in> A \<and> files w0 p = None" by (rule h(4))
    show "dom (files (snd (api_call api q w))) = dom (files w0) \<union> fst ` set ws" using h(5) by simp
    show "\<forall>q \<in> set (cs @ replicate k q). \<exists>p. request_path q = Some p \<and> files w0 p = None"
      using h(6) p0 assms(2) by auto
  qed
qed

lemma daily_inv_save_json:
  assumes "daily_inv A w0 w" "files w p = None" "p \<in> A"
  shows "daily_inv A w0 (save_json p d w)"
proof -
  have p0: "files w0 p = None" using assms(1,2) by (rule daily_inv_absent)
  from assms(1) obtain ws cs where h:
    "writes w = writes w0 @ ws" "calls w = calls w0 @ cs" "distinct (map fst ws)"
    "\<forall>p \<in> fst ` set ws. p \<in> A \<and> files w0 p = None"
    "dom (files w) = dom (files w0) \<union> fst ` set ws"
    "\<forall>q \<in> set cs. \<exists>p. request_path q = Some p \<and> files w0 p = None"
    by (rule daily_invE)
  have "p \<notin> dom (files w)" using assms(2) by auto
  then have "p \<notin> fst ` set ws" unfolding h(5) by simp
  then show ?thesis
    unfolding daily_inv_def
  proof (intro exI conjI)
    show "writes (save_json p d w) = writes w0 @ (ws @ [(p, d)])" using h(1) by simp
    show "calls (save_json p d w) = calls w0 @ cs" using h(2) by simp
    show "distinct (map fst (ws @ [(p, d)]))" using h(3) \<open>p \<notin> fst ` set ws\<close> by simp
    show "\<forall>p \<in> fst ` set (ws @ [(p, d)]). p \<in> A \<and> files w0 p = None"
      using h(4) p0 assms(3) by auto
    show "dom (files (save_json p d w)) = dom (files w0) \<union> fst ` set (ws @ [(p, d)])"
      using h(5) by auto
    show "\<forall>q \<in> set cs. \<exists>p. request_path q = Some p \<and> files w0 p = None" by (rule h(6))
  qed
qed

lemma daily_methods_distinct: "distinct (map snd daily_calls)"
  by (simp add: daily_calls_def)

lemma request_path_daily:
  assumes "(f, m) \<in> set daily_calls"
  shows "request_path (Request m [JStr ds]) = Some (day_dir ds @ f)"
proof -
  have "map fst (map (\<lambda>(f, m). (m, f)) xs) = map snd xs" for xs :: "(string \<times> string) list"
    by (induction xs) auto
  then have "distinct (map fst (map (\<lambda>(f, m). (m, f)) daily_calls))"
    using daily_methods_distinct by (simp only:)
  moreover have "(m, f) \<in> set (map (\<lambda>(f, m). (m, f)) daily_calls)"
    using assms by force
  ultimately have "map_of (map (\<lambda>(f, m). (m, f)) daily_calls) m = Some f"
    by (rule map_of_is_SomeI)
  then show ?thesis by (simp add: request_path_def)
qed

lemma request_path_body_battery:
  "request_path (Request ''get_body_battery'' [JStr ds, JStr ds]) = Some (day_dir ds @ ''body_battery.json'')"
  by (simp add: request_path_def)

lemma daily_inv_sync_day_calls:
  assumes "daily_inv A w0 w"
    and "\<forall>(f, m) \<in> set cs. request_path (Request m [JStr ds]) = Some (day_dir ds @ f) \<and> day_dir ds @ f \<in> A"
  shows "daily_inv A w0 (snd (sync_day_calls api ds cs w))"
  using assms
proof (induction cs arbitrary: w)
  case Nil
  then show ?case by simp
next
  case (Cons c cs)
  obtain f m where c: "c = (f, m)" by (cases c)
  have rest: "\<forall>(f, m) \<in> set cs. request_path (Request m [JStr ds]) = Some (day_dir ds @ f) \<and> day_dir ds @ f \<in> A"
    using Cons.prems(2) by simp
  have rp: "request_path (Request m [JStr ds]) = Some (day_dir ds @ f)" and inA: "day_dir ds @ f \<in> A"
    using Cons.prems(2) c by auto
  show ?case
  proof (cases "path_exists (day_dir ds @ f) w")
    case True
    then show ?thesis using Cons.IH[OF Cons.prems(1) rest] c by simp
  next
    case False
    then have absent: "files w (day_dir ds @ f) = None" by (simp add: path_exists_def)
    obtain r w1 where a: "api_call api (Request m [JStr ds]) w = (r, w1)"
      by (cases "api_call api (Request m [JStr ds]) w")
    have i1: "daily_inv A w0 w1"
      using daily_inv_api_call[OF Cons.prems(1) rp absent, of api] a by simp
    have f1: "files w1 = files w" using api_call_files[of api "Request m [JStr ds]" w] a by simp
    show ?thesis
    proof (cases r)
      case (Raised e)
      then show ?thesis using False a c i1 by simp
    next
      case (Returned data)
      have "daily_inv A w0 (sleep API_DELAY (if data \<noteq> JNull then save_json (day_dir ds @ f) data w1 else w1))"
        using i1 daily_inv_save_json[OF i1 _ inA, of data] absent f1 by simp
      from Cons.IH[OF this rest] show ?thesis using False a c Returned by simp
    qed
  qed
qed

lemma daily_inv_sync_day:
  assumes "daily_inv A w0 w" and "\<forall>f \<in> set daily_files. day_dir ds @ f \<in> A"
  shows "daily_inv A w0 (snd (sync_day api ds w))"
proof -
  have "\<forall>(f, m) \<in> set daily_calls. request_path (Request m [JStr ds]) = Some (day_dir ds @ f) \<and> day_dir ds @ f \<in> A"
    using assms(2) request_path_daily by (fastforce simp: daily_files_def)
  from daily_inv_sync_day_calls[OF assms(1) this, of api]
  have i1: "daily_inv A w0 (snd (sync_day_calls api ds daily_calls w))" .
  obtain r w1 where a: "sync_day_calls api ds daily_calls w = (r, w1)"
    by (cases "sync_day_calls api ds daily_calls w")
  have i1': "daily_inv A w0 w1" using i1 a by simp
  have bbA: "day_dir ds @ ''body_battery.json'' \<in> A" using assms(2) by (simp add: daily_files_def)
  show ?thesis
  proof (cases r)
    case (Raised e)
    then show ?thesis using a i1' by (simp add: sync_day_def)
  next
    case (Returned u)
    show ?thesis
    proof (cases "path_exists (day_dir ds @ ''body_battery.json'') w1")
      case True
      then show ?thesis using a i1' Returned by (simp add: sync_day_def)
    next
      case False
      then have absent: "files w1 (day_dir ds @ ''body_battery.json'') = None" by (simp add: path_exists_def)
      let ?q = "Request ''get_body_battery'' [JStr ds, JStr ds]"
      obtain r2 w2 where b: "api_call api ?q w1 = (r2, w2)" by (cases "api_call api ?q w1")
      have i2: "daily_inv A w0 w2"
        using daily_inv_api_call[OF i1' request_path_body_battery absent, of api] b by simp
      have f2: "files w2 = files w1" using api_call_files[of api ?q w1] b by simp
      show ?thesis
      proof (cases r2)
        case (Raised e)
        then show ?thesis using a b i2 Returned False by (simp add: sync_day_def)
      next
        case r2: (Returned data)
        have "daily_inv A w0 (sleep API_DELAY (if data \<noteq> JNull then save_json (day_dir ds @ ''body_battery.json'') data w2 else w2))"
          using i2 daily_inv_save_json[OF i2 _ bbA, of data] absent f2 by simp
        then show ?thesis using a b Returned r2 False by (simp add: sync_day_def)
      qed
    qed
  qed
qed

lemma daily_inv_sync_daily_loop:
  assumes "daily_inv A w0 w"
    and "\<forall>d. current \<le> d \<and> d \<le> end \<longrightarrow> (\<forall>f \<in> set daily_files. day_dir (isoformat d) @ f \<in> A)"
  shows "daily_inv A w0 (snd (sync_daily_loop api current end i days w))"
  using assms
proof (induction api current "end" i days w rule: sync_daily_loop.induct)
  case (1 api current "end" i days w)
  show ?case
  proof (cases "current \<le> end")
    case False
    then show ?thesis using "1.prems"(1) by (subst sync_daily_loop.simps) simp
  next
    case True
    let ?ds = "isoformat current"
    let ?w0 = "print (''Syncing daily data: '' @ ?ds @ ''... '' @ show_int (i + 1) @ ''/'' @ show_int days) w"
    obtain r w1 where a: "sync_day api ?ds ?w0 = (r, w1)" by (cases "sync_day api ?ds ?w0")
    have A: "\<forall>f \<in> set daily_files. day_dir ?ds @ f \<in> A" using "1.prems"(2) True by simp
    have i1: "daily_inv A w0 w1"
      using daily_inv_sync_day[OF _ A, of w0 ?w0 api] "1.prems"(1) a by simp
    show ?thesis
    proof (cases r)
      case (Raised e)
      then show ?thesis using True a i1 by (subst sync_daily_loop.simps) (simp add: Let_def)
    next
      case (Returned u)
      have "daily_inv A w0 (snd (sync_daily_loop api (current + 1) end (i + 1) days w1))"
        using "1.IH"[OF True refl refl a[symmetric] Returned i1] "1.prems"(2) by simp
      then show ?thesis using True a Returned by (subst sync_daily_loop.simps) (simp add: Let_def)
    qed
  qed
qed

lemma isoformat_739923: "isoformat 739923 = ''2026-11-03''"
  by code_simp

text \<open>
  C4. Whatever the remote does and however \<^verbatim>\<open>sync_daily_data\<close> ends, what it
  writes are files of the thirteen daily metrics for days of the range, no path is
  written twice (at most one file per metric and day), and a metric whose file for a day
  exists before the run is never asked of the remote for that day.
\<close>

theorem c4_daily_cache:
  assumes "sync_daily_data api start end w = (r, w')"
  shows "\<exists>ws cs. writes w' = writes w @ ws \<and> calls w' = calls w @ cs
      \<and> distinct (map fst ws)
      \<and> fst ` set ws \<subseteq> daily_paths start end
      \<and> (\<forall>d. \<forall>(f, m) \<in> set daily_calls.
            path_exists (day_dir (isoformat d) @ f) w \<longrightarrow> Request m [JStr (isoformat d)] \<notin> set cs)
      \<and> (\<forall>d. path_exists (day_dir (isoformat d) @ ''body_battery.json'') w \<longrightarrow>
            Request ''get_body_battery'' [JStr (isoformat d), JStr (isoformat d)] \<notin> set cs)"
proof -
  have "daily_inv (daily_paths start end) w (snd (sync_daily_loop api start end 0 (end - start + 1) w))"
    by (rule daily_inv_sync_daily_loop[OF daily_inv_refl]) (auto simp: daily_paths_def)
  then have "daily_inv (daily_paths start end) w w'"
    using assms by (simp add: sync_daily_data_def)
  then obtain ws cs where h:
    "writes w' = writes w @ ws" "calls w' = calls w @ cs" "distinct (map fst ws)"
    "\<forall>p \<in> fst ` set ws. p \<in> daily_paths start end \<and> files w p = None"
    "\<forall>q \<in> set cs. \<exists>p. request_path q = Some p \<and> files w p = None"
    by (rule daily_invE)
  have a: "Request m [JStr (isoformat d)] \<notin> set cs"
    if "(f, m) \<in> set daily_calls" "path_exists (day_dir (isoformat d) @ f) w" for d f m
    using h(5) request_path_daily[OF that(1), of "isoformat d"] that(2)
    by (auto simp: path_exists_def)
  have b: "Request ''get_body_battery'' [JStr (isoformat d), JStr (isoformat d)] \<notin> set cs"
    if "path_exists (day_dir (isoformat d) @ ''body_battery.json'') w" for d
    using h(5) request_path_body_battery[of "isoformat d"] that
    by (auto simp: path_exists_def)
  show ?thesis
  proof (intro exI conjI)
    show "writes w' = writes w @ ws" by (rule h(1))
    show "calls w' = calls w @ cs" by (rule h(2))
    show "distinct (map fst ws)" by (rule h(3))
    show "fst ` set ws \<subseteq> daily_paths start end" using h(4) by blast
    show "\<forall>d. \<forall>(f, m) \<in> set daily_calls.
            path_exists (day_dir (isoformat d) @ f) w \<longrightarrow> Request m [JStr (isoformat d)] \<notin> set cs"
      using a by blast
    show "\<forall>d. path_exists (day_dir (isoformat d) @ ''body_battery.json'') w \<longrightarrow>
            Request ''get_body_battery'' [JStr (isoformat d), JStr (isoformat d)] \<notin> set cs"
      using b by blast
  qed
qed

text \<open>
  With the summary of 2026-11-03 in the cache and a remote that has data for everything,
  the sync of that day never asks for the summary.
\<close>

theorem c4_daily_cache_witness:
  "Request ''get_user_summary'' [JStr ''2026-11-03'']
     \<notin> set (calls (snd (sync_daily_data measured 739923 739923 summary_cached)))
   \<and> distinct (map fst (writes (snd (sync_daily_data measured 739923 739923 summary_cached))))"
proof -
  obtain ws cs where h:
    "writes (snd (sync_daily_data measured 739923 739923 summary_cached)) = writes summary_cached @ ws"
    "calls (snd (sync_daily_data measured 739923 739923 summary_cached)) = calls summary_cached @ cs"
    "distinct (map fst ws)"
    "\<forall>d. \<forall>(f, m) \<in> set daily_calls.
        path_exists (day_dir (isoformat d) @ f) summary_cached \<longrightarrow>
        Request m [JStr (isoformat d)] \<notin> set cs"
    using c4_daily_cache[OF surjective_pairing, of measured 739923 739923 summary_cached] by blast
  have "(''summary.json'', ''get_user_summary'') \<in> set daily_calls"
    by (simp add: daily_calls_def)
  moreover have "path_exists (day_dir (isoformat 739923) @ ''summary.json'') summary_cached"
    by (simp add: isoformat_739923 path_exists_def summary_cached_def day_dir_def)
  ultimately have "Request ''get_user_summary'' [JStr (isoformat 739923)] \<notin> set cs"
    using h(4) by blast
  then show ?thesis
    using h(1,2,3) by (simp add: isoformat_739923 summary_cached_def empty_world_def)
qed

section \<open>C6: detail or summary\<close>

text \<open>Where the loops go for the first record of a batch.\<close>

lemma sync_batch_full_fetch:
  assumes "py_get a ''activityId'' = Returned aid" "truthy aid" "\<not> path_exists (activity_path aid) w"
    and "api_call api (get_activity aid) w = (Returned detail, w1)"
  shows "sync_batch_full api (a # rest) tot w =
           sync_batch_full api rest (tot + 1)
             (sleep API_DELAY
               (print (''  Activity '' @ py_str aid @ '' ('' @ show_nat (tot + 1) @ '')'')
                 (save_json (activity_path aid) (if detail \<noteq> JNull then detail else a) w1)))"
  using assms by (simp add: Let_def)


text \<open>A property of the world that every step of an activity loop keeps is kept by the loop.\<close>

lemma sync_batch_full_keeps:
  assumes "P w"
    and call: "\<And>w aid. P w \<Longrightarrow> P (snd (api_call api (get_activity aid) w))"
    and save: "\<And>w aid d. P w \<Longrightarrow> files w (activity_path aid) = None \<Longrightarrow> P (save_json (activity_path aid) d w)"
    and print: "\<And>w s. P w \<Longrightarrow> P (print s w)"
    and sleep: "\<And>w n. P w \<Longrightarrow> P (sleep n w)"
  shows "P (snd (sync_batch_full api acts tot w))"
  using assms(1)
proof (induction acts arbitrary: tot w)
  case Nil
  then show ?case by simp
next
  case (Cons a acts)
  show ?case
  proof (cases "py_get a ''activityId''")
    case (Raised e)
    then show ?thesis using Cons.prems by simp
  next
    case (Returned aid)
    show ?thesis
    proof (cases "truthy aid")
      case False
      then show ?thesis using Returned Cons.IH[OF Cons.prems] by simp
    next
      case True
      show ?thesis
      proof (cases "path_exists (activity_path aid) w")
        case True
        then show ?thesis using Returned \<open>truthy aid\<close> Cons.IH[OF Cons.prems] by simp
      next
        case False
        obtain r w1 where a: "api_call api (get_activity aid) w = (r, w1)"
          by (cases "api_call api (get_activity aid) w")
        have p1: "P w1" using call[OF Cons.prems, of aid] a by simp
        have f1: "files w1 = files w" using api_call_files[of api "get_activity aid" w] a by simp
        show ?thesis
        proof (cases r)
          case (Raised e)
          then show ?thesis using Returned True False a p1 by simp
        next
          case r: (Returned detail)
          have "files w1 (activity_path aid) = None"
            using False f1 by (simp add: path_exists_def)
          then have "P (sleep API_DELAY
               (print (''  Activity '' @ py_str aid @ '' ('' @ show_nat (tot + 1) @ '')'')
                 (save_json (activity_path aid) (if detail \<noteq> JNull then detail else a) w1)))"
            using p1 save print sleep by blast
          from Cons.IH[OF this] show ?thesis
            using sync_batch_full_fetch[OF Returned True False a[unfolded r]] by simp
        qed
      qed
    qed
  qed
qed












section \<open>C5: pagination of the full sync\<close>

lemma settle_raised: "fst (settle r w) = Raised e \<Longrightarrow> r = Raised e"
  by (cases r) (auto split: if_splits)

lemma api_call_raised:
  assumes "fst (api_call api q w) = Raised e"
  shows "\<exists>w'. api w' q = Raised e"
  using assms unfolding api_call_unrolled
  by (auto split: if_splits dest!: settle_raised)

lemma api_call_value:
  "api w q = Returned v \<Longrightarrow> api_call api q w = (Returned v, invoke q w)"
  by (simp add: api_call_settled)

lemma sync_batch_full_returns:
  assumes "list_all is_record acts"
    and "\<forall>w aid e. api w (get_activity aid) = Raised e \<longrightarrow> is_Exception e"
  shows "\<exists>tot'. fst (sync_batch_full api acts tot w) = Returned tot'"
  using assms(1)
proof (induction acts arbitrary: tot w)
  case Nil
  then show ?case by simp
next
  case (Cons a acts)
  then obtain kvs where a: "a = JObj kvs" by (cases a) auto
  have rest: "list_all is_record acts" using Cons.prems by simp
  let ?aid = "dict_get kvs ''activityId''"
  show ?case
  proof (cases "truthy ?aid \<and> \<not> path_exists (activity_path ?aid) w")
    case False
    then show ?thesis using Cons.IH[OF rest] a by auto
  next
    case True
    obtain r w1 where c: "api_call api (get_activity ?aid) w = (r, w1)"
      by (cases "api_call api (get_activity ?aid) w")
    show ?thesis
    proof (cases r)
      case (Raised e)
      then have "fst (api_call api (get_activity ?aid) w) = Raised e" using c by simp
      from api_call_raised[OF this] api_call_no_Exception[OF this] assms(2)
      show ?thesis by blast
    next
      case (Returned detail)
      then show ?thesis using Cons.IH[OF rest] a True c by (simp add: Let_def)
    qed
  qed
qed

lemma not_page_request: "\<not> is_page_request (get_activity aid)"
  by (simp add: get_activity_def)

lemma api_call_pages_kept:
  "\<not> is_page_request q \<Longrightarrow>
   filter is_page_request (calls (snd (api_call api q w))) = filter is_page_request (calls w)"
  using api_call_calls[of api q w] by auto

lemma sync_batch_full_pages_kept:
  "filter is_page_request (calls (snd (sync_batch_full api acts tot w))) = filter is_page_request (calls w)"
  by (rule sync_batch_full_keeps[where P = "\<lambda>w'. filter is_page_request (calls w') = filter is_page_request (calls w)"])
     (simp_all add: api_call_pages_kept not_page_request)

lemma sync_page_last:
  assumes "api w (page_request k) = Returned v" "last_page v"
    and "\<forall>w aid e. api w (get_activity aid) = Raised e \<longrightarrow> is_Exception e"
  shows "\<exists>tot' w'. sync_page api (100 * int k) 100 tot w = Stop (Returned tot', w')
           \<and> filter is_page_request (calls w') = filter is_page_request (calls w) @ [page_request k]"
proof -
  have c: "api_call api (Request ''get_activities'' [JInt (100 * int k), JInt 100]) w
             = (Returned v, invoke (page_request k) w)"
    using api_call_value[of api w "page_request k" v] assms(1) by (simp add: page_request_def)
  show ?thesis
  proof (cases "truthy v")
    case False
    then show ?thesis using c by (simp add: sync_page_def page_request_def)
  next
    case True
    then obtain b where v: "v = JList b" "length b < 100" "list_all is_record b"
      using assms(2) by (cases v) auto
    obtain r w2 where s: "sync_batch_full api b tot (invoke (page_request k) w) = (r, w2)"
      by (cases "sync_batch_full api b tot (invoke (page_request k) w)")
    obtain tot' where r: "r = Returned tot'"
      using sync_batch_full_returns[OF v(3) assms(3), of tot "invoke (page_request k) w"] s by auto
    have "filter is_page_request (calls w2) = filter is_page_request (calls (invoke (page_request k) w))"
      using sync_batch_full_pages_kept[of api b tot "invoke (page_request k) w"] s by simp
    then show ?thesis
      using c True v s r by (simp add: sync_page_def page_request_def)
  qed
qed

lemma sync_page_full:
  assumes "api w (page_request k) = Returned v" "full_page v"
    and "\<forall>w aid e. api w (get_activity aid) = Raised e \<longrightarrow> is_Exception e"
  shows "\<exists>tot' w'. sync_page api (100 * int k) 100 tot w = Again (tot', w')
           \<and> filter is_page_request (calls w') = filter is_page_request (calls w) @ [page_request k]"
proof -
  have c: "api_call api (Request ''get_activities'' [JInt (100 * int k), JInt 100]) w
             = (Returned v, invoke (page_request k) w)"
    using api_call_value[of api w "page_request k" v] assms(1) by (simp add: page_request_def)
  obtain b where v: "v = JList b" "100 \<le> length b" "list_all is_record b"
    using assms(2) by (cases v) auto
  then have t: "truthy v" by auto
  obtain r w2 where s: "sync_batch_full api b tot (invoke (page_request k) w) = (r, w2)"
    by (cases "sync_batch_full api b tot (invoke (page_request k) w)")
  obtain tot' where r: "r = Returned tot'"
    using sync_batch_full_returns[OF v(3) assms(3), of tot "invoke (page_request k) w"] s by auto
  have "filter is_page_request (calls w2) = filter is_page_request (calls (invoke (page_request k) w))"
    using sync_batch_full_pages_kept[of api b tot "invoke (page_request k) w"] s by simp
  then show ?thesis
    using c t v s r by (simp add: sync_page_def page_request_def)
qed

lemma sync_full_loop_pages:
  assumes pages: "\<forall>w i. i \<le> n \<longrightarrow> api w (page_request i) = Returned (pages i)"
    and full: "\<forall>i < n. full_page (pages i)"
    and last: "last_page (pages n)"
    and noint: "\<forall>w aid e. api w (get_activity aid) = Raised e \<longrightarrow> is_Exception e"
  shows "k \<le> n \<Longrightarrow>
         \<exists>tot' w'. sync_full_loop api (100 * int k) 100 tot w = Some (Returned tot', w')
           \<and> filter is_page_request (calls w')
               = filter is_page_request (calls w) @ map page_request [k..<Suc n]"
proof (induction "n - k" arbitrary: k tot w)
  case 0
  then have k: "k = n" by simp
  obtain tot' w' where s: "sync_page api (100 * int k) 100 tot w = Stop (Returned tot', w')"
      "filter is_page_request (calls w') = filter is_page_request (calls w) @ [page_request k]"
    using sync_page_last[OF _ _ noint, of w k "pages n" tot] pages last k by auto
  show ?case
    apply (subst sync_full_loop.simps)
    using s k by simp
next
  case (Suc d)
  then have k: "k < n" by simp
  obtain tot1 w1 where s: "sync_page api (100 * int k) 100 tot w = Again (tot1, w1)"
      "filter is_page_request (calls w1) = filter is_page_request (calls w) @ [page_request k]"
    using sync_page_full[OF _ _ noint, of w k "pages k" tot] pages full k by auto
  have d: "d = n - Suc k" using Suc.hyps(2) by simp
  obtain tot' w' where r: "sync_full_loop api (100 * int (Suc k)) 100 tot1 w1 = Some (Returned tot', w')"
      "filter is_page_request (calls w')
         = filter is_page_request (calls w1) @ map page_request [Suc k..<Suc n]"
    using Suc.hyps(1)[OF d, of tot1 w1] k by auto
  have o: "100 * int k + 100 = 100 * int (Suc k)" by simp
  have u: "[k..<Suc n] = k # [Suc k..<Suc n]" using k by (simp add: upt_rec)
  show ?case
    apply (subst sync_full_loop.simps)
    using s r by (simp add: o u del: upt_Suc)
qed

text \<open>
  C5. Let the remote answer the list request at offset \<open>100 * i\<close> with a full page of
  records (at least 100) for every \<open>i < n\<close> and with a short or empty page at offset
  \<open>100 * n\<close>, and let no detail fetch be interrupted. Then
  \<^verbatim>\<open>sync_activities_full\<close> returns, and the list requests it made are exactly those
  at the offsets \<open>0, 100, ..., 100 * n\<close>, in this order, each with batch size 100.
\<close>

theorem c5_pagination:
  assumes "\<forall>w i. i \<le> n \<longrightarrow> api w (page_request i) = Returned (pages i)"
    and "\<forall>i < n. full_page (pages i)"
    and "last_page (pages n)"
    and "\<forall>w aid e. api w (get_activity aid) = Raised e \<longrightarrow> is_Exception e"
  shows "\<exists>w'. sync_activities_full api w = Some (Returned (), w')
           \<and> filter is_page_request (calls w')
               = filter is_page_request (calls w) @ map page_request [0..<Suc n]"
proof -
  obtain tot' w' where
    "sync_full_loop api (100 * int 0) 100 0 (print ''Syncing all activities (paginated)...'' w)
       = Some (Returned tot', w')"
    "filter is_page_request (calls w')
       = filter is_page_request (calls (print ''Syncing all activities (paginated)...'' w))
           @ map page_request [0..<Suc n]"
    using sync_full_loop_pages[OF assms, of 0 0 "print ''Syncing all activities (paginated)...'' w"]
    by blast
  then show ?thesis
    by (simp add: sync_activities_full_def del: upt_Suc)
qed

lemma paged_source_pages: "i \<le> 2 \<Longrightarrow> paged_source w (page_request i) = Returned (three_pages i)"
proof -
  assume "i \<le> 2"
  then consider "i = 0" | "i = 1" | "i = 2" by linarith
  then show ?thesis
    by cases (simp_all add: paged_source_def page_request_def)
qed

lemma page_of_records: "list_all is_record (map (\<lambda>j. JObj (f j)) xs)"
  by (induction xs) auto

text \<open>
  Pages of 100, 100 and 37 records: three list requests, at offsets 0, 100 and 200.
\<close>

theorem c5_pagination_witness:
  "map_option (\<lambda>rw. (fst rw, filter is_page_request (calls (snd rw))))
     (sync_activities_full paged_source empty_world)
   = Some (Returned (), [page_request 0, page_request 1, page_request 2])"
proof -
  have a: "\<forall>w i. i \<le> 2 \<longrightarrow> paged_source w (page_request i) = Returned (three_pages i)"
    using paged_source_pages by blast
  have b: "\<forall>i < 2. full_page (three_pages i)"
    by (simp add: three_pages_def page_of_def page_of_records)
  have c: "last_page (three_pages 2)"
    by (simp add: three_pages_def page_of_def page_of_records)
  have d: "\<forall>w aid e. paged_source w (get_activity aid) = Raised e \<longrightarrow> is_Exception e"
    by (simp add: paged_source_def)
  obtain w' where "sync_activities_full paged_source empty_world = Some (Returned (), w')"
    "filter is_page_request (calls w')
       = filter is_page_request (calls empty_world) @ map page_request [0..<Suc 2]"
    using c5_pagination[OF a b c d, of empty_world] by blast
  then show ?thesis
    by (simp add: empty_world_def upt_rec numeral_2_eq_2)
qed

section \<open>Dates written and read back\<close>

lemma div_step:
  fixes y k :: int
  assumes "0 < k"
  shows "y div k - (y - 1) div k = (if y mod k = 0 then 1 else 0)"
proof (cases "y mod k = 0")
  case True
  have "y - 1 = k * (y div k - 1) + (k - 1)"
    using True by (simp add: algebra_simps) (metis mult.commute mult_div_mod_eq add.right_neutral)
  then have "(y - 1) div k = y div k - 1"
    using assms by (intro int_div_pos_eq[where r = "k - 1"]) auto
  then show ?thesis using True by simp
next
  case False
  have "0 \<le> y mod k" "y mod k < k" using assms by auto
  then have r: "0 \<le> y mod k - 1" "y mod k - 1 < k" using False by auto
  have "y - 1 = k * (y div k) + (y mod k - 1)"
    by (simp add: algebra_simps)
  then have "(y - 1) div k = y div k"
    using r by (rule int_div_pos_eq)
  then show ?thesis using False by simp
qed

lemma days_before_year_next:
  "days_before_year (y + 1) = days_before_year y + 365 + (if is_leap y then 1 else 0)"
proof -
  have a: "y div 4 - (y - 1) div 4 = (if y mod 4 = 0 then 1 else 0)" by (rule div_step) simp
  have b: "y div 100 - (y - 1) div 100 = (if y mod 100 = 0 then 1 else 0)" by (rule div_step) simp
  have c: "y div 400 - (y - 1) div 400 = (if y mod 400 = 0 then 1 else 0)" by (rule div_step) simp
  have d: "y mod 4 = 0" if "y mod 100 = 0"
  proof -
    have "(100::int) dvd y" using that by (simp add: dvd_eq_mod_eq_0)
    moreover have "(4::int) dvd 100" by simp
    ultimately have "(4::int) dvd y" by (rule dvd_trans[rotated])
    then show ?thesis by (simp add: dvd_eq_mod_eq_0)
  qed
  have e: "y mod 100 = 0" if "y mod 400 = 0"
  proof -
    have "(400::int) dvd y" using that by (simp add: dvd_eq_mod_eq_0)
    moreover have "(100::int) dvd 400" by simp
    ultimately have "(100::int) dvd y" by (rule dvd_trans[rotated])
    then show ?thesis by (simp add: dvd_eq_mod_eq_0)
  qed
  have "days_before_year (y + 1) - days_before_year y =
          365 + (y div 4 - (y - 1) div 4) - (y div 100 - (y - 1) div 100)
            + (y div 400 - (y - 1) div 400)"
    by (simp add: days_before_year_def algebra_simps)
  then have s: "days_before_year (y + 1) - days_before_year y =
          365 + (if y mod 4 = 0 then 1 else 0) - (if y mod 100 = 0 then 1 else 0)
            + (if y mod 400 = 0 then 1 else 0)"
    by (simp only: a b c)
  show ?thesis
  proof (cases "y mod 400 = 0")
    case True
    then show ?thesis using s d e by (simp add: is_leap_def)
  next
    case n400: False
    show ?thesis
    proof (cases "y mod 100 = 0")
      case True
      then show ?thesis using s d n400 by (simp add: is_leap_def)
    next
      case False
      then show ?thesis using s n400 by (simp add: is_leap_def)
    qed
  qed
qed

lemma find_year_props:
  assumes "days_before_year y0 < n"
  shows "y0 \<le> find_year n y0 \<and> days_before_year (find_year n y0) < n
         \<and> n \<le> days_before_year (find_year n y0 + 1)"
  using assms
proof (induction n y0 rule: find_year.induct)
  case (1 n y)
  show ?case
  proof (cases "n \<le> days_before_year (y + 1)")
    case True
    then show ?thesis using "1.prems" by (subst (1 2 3) find_year.simps) simp
  next
    case False
    then have "days_before_year (y + 1) < n" by simp
    from "1.IH"[OF False this] show ?thesis
      using False by (subst (1 2 3) find_year.simps) simp
  qed
qed

lemma find_year_upper:
  assumes "y0 \<le> Y" "n \<le> days_before_year (Y + 1)"
  shows "find_year n y0 \<le> Y"
  using assms
proof (induction n y0 rule: find_year.induct)
  case (1 n y)
  show ?case
  proof (cases "n \<le> days_before_year (y + 1)")
    case True
    then show ?thesis using "1.prems" by (subst find_year.simps) simp
  next
    case False
    have "y \<noteq> Y" using False "1.prems"(2) by auto
    then have "y + 1 \<le> Y" using "1.prems"(1) by simp
    from "1.IH"[OF False this "1.prems"(2)] show ?thesis
      using False by (subst find_year.simps) simp
  qed
qed

lemma first_guess:
  assumes "1 \<le> n"
  shows "days_before_year (n div 366 + 1) < n"
proof -
  let ?p = "n div 366"
  have p0: "0 \<le> ?p" using assms by (simp add: pos_imp_zdiv_nonneg_iff)
  have le: "366 * ?p \<le> n"
    using mult_div_mod_eq[of 366 n] pos_mod_sign[of 366 n] by linarith
  have a: "?p div 400 \<le> ?p div 100" using p0 by (intro zdiv_mono2) auto
  show ?thesis
  proof (cases "?p = 0")
    case True
    then show ?thesis using assms by (simp add: days_before_year_def)
  next
    case False
    then have "0 < ?p" using p0 by simp
    then have "?p div 4 < ?p" by (rule int_div_less_self) simp
    then show ?thesis using a le by (simp add: days_before_year_def)
  qed
qed

lemma days_before_month_Suc:
  "1 \<le> m \<Longrightarrow> days_before_month y (Suc m) = days_before_month y m + days_in_month y m"
  by (simp add: days_before_month_def)

lemma days_before_month_1: "days_before_month y 1 = 0" "days_before_month y (Suc 0) = 0"
  by (simp_all add: days_before_month_def)

lemma days_before_month_13:
  "days_before_month y 13 = 365 + (if is_leap y then 1 else 0)"
  by (simp add: days_before_month_def days_in_month_def upt_rec)

lemma find_month_props:
  assumes "1 \<le> m0" "m0 \<le> 12" "days_before_month y m0 < r" "r \<le> days_before_month y 13"
  shows "m0 \<le> find_month y r m0 \<and> find_month y r m0 \<le> 12
         \<and> days_before_month y (find_month y r m0) < r
         \<and> r \<le> days_before_month y (Suc (find_month y r m0))"
  using assms
proof (induction y r m0 rule: find_month.induct)
  case (1 y r m)
  show ?case
  proof (cases "12 \<le> m \<or> r \<le> days_before_month y (m + 1)")
    case True
    then have "find_month y r m = m" by (subst find_month.simps) simp
    moreover have "r \<le> days_before_month y (Suc m)"
    proof (cases "12 \<le> m")
      case True
      then have "m = 12" using "1.prems"(2) by simp
      then show ?thesis using "1.prems"(4) by simp
    next
      case False
      then show ?thesis using True by simp
    qed
    ultimately show ?thesis using "1.prems" by simp
  next
    case False
    then have f: "find_month y r m = find_month y r (m + 1)" by (subst find_month.simps) simp
    have "1 \<le> m + 1" "m + 1 \<le> 12" "days_before_month y (m + 1) < r"
      using False by auto
    from "1.IH"[OF False this "1.prems"(4)] show ?thesis
      unfolding f by simp
  qed
qed

lemma days_in_month_le: "days_in_month y m \<le> 31"
  by (simp add: days_in_month_def)

text \<open>The date of an ordinal is a date of the calendar, and it is the date of that ordinal.\<close>

lemma ord2ymd_valid:
  assumes "1 \<le> n" "n \<le> 3652059" "ord2ymd n = (y, m, d)"
  shows "1 \<le> y \<and> y \<le> 9999 \<and> 1 \<le> m \<and> m \<le> 12 \<and> 1 \<le> d \<and> d \<le> days_in_month y m
         \<and> ymd2ord y m d = n"
proof -
  let ?y0 = "n div 366 + 1"
  have y: "y = find_year n ?y0" and m: "m = find_month y (n - days_before_year y) 1"
    and d: "d = n - days_before_year y - days_before_month y m"
    using assms(3) by (auto simp: ord2ymd_def Let_def)
  have fy: "?y0 \<le> y" "days_before_year y < n" "n \<le> days_before_year (y + 1)"
    using find_year_props[OF first_guess[OF assms(1)]] y by simp_all
  have "0 \<le> n div 366" using assms(1) by (simp add: pos_imp_zdiv_nonneg_iff)
  then have y1: "1 \<le> y" using fy(1) by simp
  have "n div 366 \<le> 3652059 div 366" using assms(2) by (intro zdiv_mono1) auto
  then have "?y0 \<le> 9999" by simp
  moreover have "n \<le> days_before_year (9999 + 1)" using assms(2) by (simp add: days_before_year_def)
  ultimately have y2: "y \<le> 9999" unfolding y by (rule find_year_upper)
  let ?r = "n - days_before_year y"
  have r: "days_before_month y 1 < ?r" "?r \<le> days_before_month y 13"
    using fy(2,3) days_before_year_next[of y] by (simp_all add: days_before_month_1 days_before_month_13)
  have fm: "1 \<le> m" "m \<le> 12" "days_before_month y m < ?r" "?r \<le> days_before_month y (Suc m)"
    using find_month_props[OF _ _ r, of] m by simp_all
  have "1 \<le> d" "d \<le> days_in_month y m"
    using fm d days_before_month_Suc[OF fm(1), of y] by simp_all
  moreover have "ymd2ord y m d = n" by (simp add: ymd2ord_def d)
  ultimately show ?thesis using y1 y2 fm(1,2) by simp
qed

lemma digit_char_code: "d < 10 \<Longrightarrow> of_char (digit_char d) = (48 + d :: nat)"
proof -
  assume "d < 10"
  then have "d = 0 \<or> d = 1 \<or> d = 2 \<or> d = 3 \<or> d = 4 \<or> d = 5 \<or> d = 6 \<or> d = 7 \<or> d = 8 \<or> d = 9"
    by arith
  then show ?thesis
    by (elim disjE) (simp_all add: digit_char_def)
qed

lemma digit_char_is_digit: "d < 10 \<Longrightarrow> is_digit (digit_char d)"
  by (simp add: is_digit_def digit_char_code)

lemma digits_val_snoc: "digits_val (s @ [c]) = 10 * digits_val s + (of_char c - 48)"
  by (simp add: digits_val_def)

lemma show_nat_digits: "list_all is_digit (show_nat n)"
proof (induction n rule: show_nat.induct)
  case (1 n)
  show ?case
  proof (cases "n < 10")
    case True
    then show ?thesis by (subst show_nat.simps) (simp add: digit_char_is_digit)
  next
    case False
    then show ?thesis using "1.IH" by (subst show_nat.simps) (simp add: digit_char_is_digit)
  qed
qed

lemma show_nat_val: "digits_val (show_nat n) = n"
proof (induction n rule: show_nat.induct)
  case (1 n)
  show ?case
  proof (cases "n < 10")
    case True
    then show ?thesis by (subst show_nat.simps) (simp add: digits_val_def digit_char_code)
  next
    case False
    then show ?thesis using "1.IH"
      by (subst show_nat.simps) (simp add: digits_val_snoc digit_char_code)
  qed
qed

lemma show_nat_nonempty: "show_nat n \<noteq> []"
  by (subst show_nat.simps) simp

lemma show_nat_length: "n < 10 ^ k \<Longrightarrow> 0 < k \<Longrightarrow> length (show_nat n) \<le> k"
proof (induction n arbitrary: k rule: show_nat.induct)
  case (1 n)
  show ?case
  proof (cases "n < 10")
    case True
    then show ?thesis using "1.prems" by (subst show_nat.simps) simp
  next
    case False
    obtain j where k: "k = Suc j" using "1.prems"(2) by (cases k) auto
    have "0 < j" using False "1.prems"(1) k by (cases j) auto
    moreover have "n div 10 < 10 ^ j" using "1.prems"(1) k by (simp add: less_mult_imp_div_less)
    ultimately have "length (show_nat (n div 10)) \<le> j" using "1.IH"[OF False] by simp
    then show ?thesis using False k by (subst show_nat.simps) simp
  qed
qed

lemma digits_val_zeros: "digits_val (replicate j CHR ''0'' @ s) = digits_val s"
  by (induction j) (simp_all add: digits_val_def)

lemma zfill_props:
  assumes "n < 10 ^ k" "0 < k"
  shows "length (zfill k (show_nat n)) = k" "list_all is_digit (zfill k (show_nat n))"
    "digits_val (zfill k (show_nat n)) = n" "CHR ''-'' \<notin> set (zfill k (show_nat n))"
proof -
  have l: "length (show_nat n) \<le> k" using assms by (rule show_nat_length)
  show "length (zfill k (show_nat n)) = k" using l by (simp add: zfill_def)
  have z: "is_digit CHR ''0''" by (simp add: is_digit_def)
  show d: "list_all is_digit (zfill k (show_nat n))"
    using show_nat_digits[of n] z by (auto simp: zfill_def list_all_iff)
  show "digits_val (zfill k (show_nat n)) = n"
    by (simp add: zfill_def digits_val_zeros show_nat_val)
  have "\<not> is_digit CHR ''-''" by (simp add: is_digit_def)
  then show "CHR ''-'' \<notin> set (zfill k (show_nat n))"
    using d by (auto simp: list_all_iff)
qed

lemma split_on_plain: "c \<notin> set s \<Longrightarrow> split_on c s = [s]"
  by (induction s) auto

lemma split_on_field: "c \<notin> set s \<Longrightarrow> split_on c (s @ c # t) = s # split_on c t"
  by (induction s) auto

lemma strptime_isoformat:
  assumes "1 \<le> n" "n \<le> 3652059"
  shows "strptime_date (isoformat n) = Returned n"
proof -
  obtain y m d where o: "ord2ymd n = (y, m, d)" by (cases "ord2ymd n")
  from ord2ymd_valid[OF assms o] have v:
    "1 \<le> y" "y \<le> 9999" "1 \<le> m" "m \<le> 12" "1 \<le> d" "d \<le> days_in_month y m" "ymd2ord y m d = n"
    by simp_all
  have d31: "d \<le> 31" using v(6) days_in_month_le[of y m] by simp
  let ?Y = "zfill 4 (show_nat (nat y))" and ?M = "zfill 2 (show_nat m)" and ?D = "zfill 2 (show_nat (nat d))"
  have Y: "length ?Y = 4" "list_all is_digit ?Y" "digits_val ?Y = nat y" "CHR ''-'' \<notin> set ?Y"
    using zfill_props[of "nat y" 4] v(1,2) by simp_all
  have M: "length ?M = 2" "list_all is_digit ?M" "digits_val ?M = m" "CHR ''-'' \<notin> set ?M"
    using zfill_props[of m 2] v(4) by simp_all
  have D: "length ?D = 2" "list_all is_digit ?D" "digits_val ?D = nat d" "CHR ''-'' \<notin> set ?D"
    using zfill_props[of "nat d" 2] v(5) d31 by simp_all
  have iso: "isoformat n = ?Y @ CHR ''-'' # (?M @ CHR ''-'' # ?D)"
    by (simp add: isoformat_def o)
  have sp: "split_on CHR ''-'' (isoformat n) = [?Y, ?M, ?D]"
    unfolding iso by (simp add: split_on_field Y(4) M(4) split_on_plain D(4))
  have "?D \<noteq> []" using D(1) by auto
  then have "is_digit (hd ?D)" using D(2) by (cases ?D) auto
  then have hd: "hd ?D \<noteq> CHR '' ''" by (auto simp: is_digit_def)
  have ne: "?M \<noteq> []" "?D \<noteq> []" using M(1) D(1) by auto
  have nd: "Suc 0 \<le> nat d" "nat d \<le> 31" "int (nat d) = d" "int (nat y) = y"
    using v(1,5) d31 by simp_all
  show ?thesis
    unfolding strptime_date_def sp
    using Y(1,2,3) M(1,2,3) D(1,2,3) hd ne v d31 nd
    by (simp add: Let_def)
qed

lemma isoformat_nonempty: "isoformat n \<noteq> []"
  by (cases "ord2ymd n") (auto simp: isoformat_def)

end
